theory Spec2Isabelle
  imports Main "HOL-Library.Word" "HOL-Library.Signed_Division"
begin

section \<open>OpenCache: an LRU cache with TTLs and an append-only log\<close>

text \<open>
  A shallow embedding of \<^verbatim>\<open>cache/cache.go\<close> and \<^verbatim>\<open>internal/utils.go\<close>.
  Every public operation holds the cache's mutex from entry to exit, so the operations
  are modelled as sequential state transformers. What the Go code takes from its
  surroundings is made explicit:
  \<^item> the reading of \<^verbatim>\<open>time.Now()\<close> is an argument \<open>now\<close> of the operation;
  \<^item> the file system is a value of type \<open>fs\<close> that is passed in and returned;
  \<^item> the library calls \<^verbatim>\<open>json.Marshal\<close>, \<^verbatim>\<open>json.Unmarshal\<close> and the line scanner
    are the fields of a parameter of type \<open>lib\<close>;
  \<^item> a run-time panic is the result \<open>Inl\<close>.
\<close>

subsection \<open>Keys, values, instants\<close>

text \<open>
  Keys are Go values of type \<^verbatim>\<open>interface{}\<close>. The model has one constructor for each
  way a key can behave in the validator and in the map:
  \<^item> \<open>KNil\<close>, the nil interface;
  \<^item> \<open>KStr\<close> and \<open>KInt\<close>, strings and a further comparable kind (\<^verbatim>\<open>int\<close>), which a
    map finds again;
  \<^item> \<open>KSlice\<close>, a kind that is not comparable (\<^verbatim>\<open>[]int\<close>);
  \<^item> \<open>KNaN\<close>, the \<^verbatim>\<open>float64\<close> value \<^verbatim>\<open>math.NaN()\<close>: its type is comparable, but the
    value is not equal to itself, so no lookup and no delete of a map ever matches it
    (an array or a struct with a NaN inside behaves in the same way);
  \<^item> \<open>KBoxedSlice\<close>, a value such as \<^verbatim>\<open>[1]interface{}{[]int{1}}\<close>: its type is
    comparable, but hashing the value panics.
  Values are \<^verbatim>\<open>interface{}\<close> too: \<open>None\<close> is nil, \<open>Some v\<close> any other payload.
\<close>

datatype gokey =
  KNil | KStr string | KInt int | KSlice "int list" | KNaN | KBoxedSlice "int list"

type_synonym int64 = "64 word"

text \<open>An instant of \<^verbatim>\<open>time.Time\<close>, in nanoseconds; a \<^verbatim>\<open>time.Duration\<close> is an \<open>int64\<close>
  of nanoseconds.\<close>

type_synonym instant = int

definition Millisecond :: int64 where
  "Millisecond = 1000000"

text \<open>\<^verbatim>\<open>Duration.Milliseconds\<close>: Go's integer division truncates towards zero.\<close>

definition Milliseconds :: "int64 \<Rightarrow> int64" where
  "Milliseconds d = word_of_int (sint d sdiv 1000000)"

text \<open>\<^verbatim>\<open>t.Add(d)\<close> and \<^verbatim>\<open>t.After(u)\<close>.\<close>

definition Add :: "instant \<Rightarrow> int64 \<Rightarrow> instant" where
  "Add t d = t + sint d"

definition After :: "instant \<Rightarrow> instant \<Rightarrow> bool" where
  "After t u = (u < t)"

subsection \<open>internal/utils.go\<close>

datatype key_error = KeyNil | KeyNotComparable

text \<open>\<^verbatim>\<open>reflect.TypeOf(key).Comparable()\<close> on a key that is not nil.\<close>

fun Comparable :: "gokey \<Rightarrow> bool" where
  "Comparable (KSlice xs) = False"
| "Comparable k = True"

definition ValidateKey :: "gokey \<Rightarrow> key_error option" where
  "ValidateKey k =
     (if k = KNil then Some KeyNil
      else if \<not> Comparable k then Some KeyNotComparable
      else None)"

subsection \<open>The data model\<close>

text \<open>
  The map holds pointers to the elements of the list, and each element holds a pointer to
  its entry. An element is modelled by a reference \<open>ref\<close>; \<open>elems\<close> is the store that gives
  the entry of each allocated element, and \<open>next_ref\<close> is the next reference to allocate.
  \<open>LRU_deque\<close> lists the elements from front (most recently used) to back.
\<close>

type_synonym ref = nat

record 'v entry =
  key :: gokey
  val :: "'v option"
  expiresAt :: "instant option"

text \<open>
  A Go map from keys to element pointers. \<open>entries\<close> holds what a lookup can find;
  \<open>nan_entries\<close> holds the values assigned under NaN keys, newest first: each such
  assignment adds an entry that no lookup or delete reaches, and \<^verbatim>\<open>len\<close> counts it.
\<close>

record gomap =
  entries :: "gokey \<rightharpoonup> ref"
  nan_entries :: "ref list"

record 'v OpenCache =
  Cache :: gomap
  LRU_deque :: "ref list"
  Capacity :: int
  Persistent :: bool
  LogPath :: string
  elems :: "ref \<rightharpoonup> 'v entry"
  next_ref :: ref

record 'v LogEntry =
  Op :: string
  Key :: string
  Value :: "'v option"
  TTLms :: int64

datatype panic = InterfaceConversion | NilDereference | UnhashableKey

datatype io_error = OpenError | ScanError

text \<open>
  The file system: the lines of each existing file, and the paths on which
  \<^verbatim>\<open>os.OpenFile\<close> for appending fails.
\<close>

record fs =
  files :: "string \<rightharpoonup> string list"
  unwritable :: "string set"

text \<open>
  The library: \<open>Marshal\<close> is \<^verbatim>\<open>json.Marshal\<close> on a \<open>LogEntry\<close> (\<open>None\<close> when it
  returns an error), \<open>Unmarshal\<close> is \<^verbatim>\<open>json.Unmarshal\<close> into a fresh \<open>LogEntry\<close>
  (\<open>None\<close> when it returns an error), and \<open>ScanLines\<close> gives the lines that a
  \<^verbatim>\<open>bufio.Scanner\<close> over a file yields before it stops, with the error it stops on.
\<close>

record 'v lib =
  Marshal :: "'v LogEntry \<Rightarrow> string option"
  Unmarshal :: "string \<Rightarrow> 'v LogEntry option"
  ScanLines :: "string list \<Rightarrow> string list \<times> io_error option"

subsection \<open>The built-in map\<close>

text \<open>Whether the runtime can hash the key: it panics on a slice, boxed or not.\<close>

fun hashable :: "gokey \<Rightarrow> bool" where
  "hashable (KSlice xs) = False"
| "hashable (KBoxedSlice xs) = False"
| "hashable k = True"

text \<open>\<^verbatim>\<open>v, ok := m[k]\<close>, \<^verbatim>\<open>delete(m, k)\<close>, \<^verbatim>\<open>m[k] = v\<close> and \<^verbatim>\<open>len(m)\<close>.\<close>

definition map_index :: "gomap \<Rightarrow> gokey \<Rightarrow> panic + ref option" where
  "map_index m k =
     (if \<not> hashable k then Inl UnhashableKey
      else if k = KNaN then Inr None
      else Inr (entries m k))"

definition map_delete :: "gomap \<Rightarrow> gokey \<Rightarrow> panic + gomap" where
  "map_delete m k =
     (if \<not> hashable k then Inl UnhashableKey
      else if k = KNaN then Inr m
      else Inr (m\<lparr>entries := (entries m)(k := None)\<rparr>))"

definition map_assign :: "gomap \<Rightarrow> gokey \<Rightarrow> ref \<Rightarrow> panic + gomap" where
  "map_assign m k v =
     (if \<not> hashable k then Inl UnhashableKey
      else if k = KNaN then Inr (m\<lparr>nan_entries := v # nan_entries m\<rparr>)
      else Inr (m\<lparr>entries := (entries m)(k \<mapsto> v)\<rparr>))"

definition map_len :: "gomap \<Rightarrow> nat" where
  "map_len m = card (dom (entries m)) + length (nan_entries m)"

definition map_make :: gomap where
  "map_make = \<lparr>entries = Map.empty, nan_entries = []\<rparr>"

subsection \<open>container/list\<close>

definition Remove :: "ref list \<Rightarrow> ref \<Rightarrow> ref list" where
  "Remove l e = remove1 e l"

definition MoveToFront :: "ref list \<Rightarrow> ref \<Rightarrow> ref list" where
  "MoveToFront l e = (if e \<in> set l then e # remove1 e l else l)"

definition Back :: "ref list \<Rightarrow> ref option" where
  "Back l = (if l = [] then None else Some (last l))"

subsection \<open>cache/cache.go\<close>

definition NewOpenCache :: "int \<Rightarrow> bool \<Rightarrow> string \<Rightarrow> 'v OpenCache" where
  "NewOpenCache capacity persistent logPath =
     \<lparr>Cache = map_make, LRU_deque = [],
      Capacity = (if capacity < 1 then 1 else capacity),
      Persistent = persistent, LogPath = logPath,
      elems = Map.empty, next_ref = 0\<rparr>"

definition makeLogEntry ::
  "string \<Rightarrow> gokey \<Rightarrow> 'v option \<Rightarrow> int64 option \<Rightarrow> panic + 'v LogEntry" where
  "makeLogEntry op k v ttl =
     (case k of
        KStr strKey \<Rightarrow>
          Inr \<lparr>Op = op, Key = strKey, Value = v,
               TTLms = (case ttl of Some d \<Rightarrow> Milliseconds d | None \<Rightarrow> 0)\<rparr>
      | _ \<Rightarrow> Inl InterfaceConversion)"

definition AppendToLog ::
  "'v lib \<Rightarrow> 'v OpenCache \<Rightarrow> fs \<Rightarrow> 'v LogEntry \<Rightarrow> 'v OpenCache \<times> fs" where
  "AppendToLog J kv fs e =
     (let kv1 = (if length (LogPath kv) = 0 then kv\<lparr>LogPath := ''appendonly.aof''\<rparr> else kv) in
      if LogPath kv1 \<in> unwritable fs then (kv1, fs)
      else
        let data = (case Marshal J e of Some d \<Rightarrow> d | None \<Rightarrow> []);
            old = (case files fs (LogPath kv1) of Some ls \<Rightarrow> ls | None \<Rightarrow> [])
        in (kv1, fs\<lparr>files := (files fs)(LogPath kv1 \<mapsto> old @ [data])\<rparr>))"

text \<open>
  The statement \<^verbatim>\<open>if kv.Persistent { kv.AppendToLog(makeLogEntry(op, key, value, ttl)) }\<close>,
  which ends both branches of \<open>Set\<close> and the successful branch of \<open>Delete\<close>.
\<close>

definition persist ::
  "'v lib \<Rightarrow> 'v OpenCache \<Rightarrow> fs \<Rightarrow> string \<Rightarrow> gokey \<Rightarrow> 'v option \<Rightarrow> int64 option
     \<Rightarrow> panic + ('v OpenCache \<times> fs)" where
  "persist J kv fs op k v ttl =
     (if Persistent kv then
        (case makeLogEntry op k v ttl of
           Inl p \<Rightarrow> Inl p
         | Inr e \<Rightarrow> Inr (AppendToLog J kv fs e))
      else Inr (kv, fs))"

definition Get ::
  "'v OpenCache \<Rightarrow> instant \<Rightarrow> gokey \<Rightarrow> panic + (('v option \<times> bool) \<times> 'v OpenCache)" where
  "Get kv now k =
     (case ValidateKey k of
        Some err \<Rightarrow> Inr ((None, False), kv)
      | None \<Rightarrow>
        (case map_index (Cache kv) k of
           Inl p \<Rightarrow> Inl p
         | Inr None \<Rightarrow> Inr ((None, False), kv)
         | Inr (Some elem) \<Rightarrow>
           (case elems kv elem of
              None \<Rightarrow> Inl NilDereference
            | Some ent \<Rightarrow>
                if (case expiresAt ent of Some exp \<Rightarrow> After now exp | None \<Rightarrow> False)
                then (case map_delete (Cache kv) (key ent) of
                        Inl p \<Rightarrow> Inl p
                      | Inr m \<Rightarrow>
                          Inr ((None, False),
                               kv\<lparr>Cache := m, LRU_deque := Remove (LRU_deque kv) elem\<rparr>))
                else Inr ((val ent, True),
                          kv\<lparr>LRU_deque := MoveToFront (LRU_deque kv) elem\<rparr>))))"

text \<open>The block of \<open>Set\<close> that makes room: the back of the list is evicted when the list
  has reached the capacity.\<close>

definition evict :: "'v OpenCache \<Rightarrow> panic + 'v OpenCache" where
  "evict kv =
     (if Capacity kv \<le> int (length (LRU_deque kv)) then
        (case Back (LRU_deque kv) of
           None \<Rightarrow> Inr kv
         | Some back \<Rightarrow>
           (case elems kv back of
              None \<Rightarrow> Inl NilDereference
            | Some evicted \<Rightarrow>
                (case map_delete (Cache kv) (key evicted) of
                   Inl p \<Rightarrow> Inl p
                 | Inr m \<Rightarrow>
                     Inr (kv\<lparr>Cache := m, LRU_deque := Remove (LRU_deque kv) back\<rparr>))))
      else Inr kv)"

definition Set ::
  "'v lib \<Rightarrow> 'v OpenCache \<Rightarrow> fs \<Rightarrow> instant \<Rightarrow> gokey \<Rightarrow> 'v option \<Rightarrow> int64 option
     \<Rightarrow> panic + (bool \<times> 'v OpenCache \<times> fs)" where
  "Set J kv fs now k v ttl_duration =
     (case ValidateKey k of
        Some err \<Rightarrow> Inr (False, kv, fs)
      | None \<Rightarrow>
        (case map_index (Cache kv) k of
           Inl p \<Rightarrow> Inl p
         | Inr (Some elem) \<Rightarrow>
             (case elems kv elem of
                None \<Rightarrow> Inl NilDereference
              | Some ent \<Rightarrow>
                  let ent' = ent\<lparr>val := v,
                                 expiresAt := (case ttl_duration of
                                                 Some d \<Rightarrow> Some (Add now d)
                                               | None \<Rightarrow> None)\<rparr>;
                      kv1 = kv\<lparr>elems := (elems kv)(elem \<mapsto> ent'),
                               LRU_deque := MoveToFront (LRU_deque kv) elem\<rparr>
                  in (case persist J kv1 fs ''SET'' k v ttl_duration of
                        Inl p \<Rightarrow> Inl p
                      | Inr (kv2, fs2) \<Rightarrow> Inr (True, kv2, fs2)))
         | Inr None \<Rightarrow>
             (case evict kv of
                Inl p \<Rightarrow> Inl p
              | Inr kv1 \<Rightarrow>
                  let expPtr = (case ttl_duration of
                                  Some d \<Rightarrow> Some (Add now d)
                                | None \<Rightarrow> None);
                      elem = next_ref kv1
                  in (case map_assign (Cache kv1) k elem of
                        Inl p \<Rightarrow> Inl p
                      | Inr m \<Rightarrow>
                          let kv2 = kv1\<lparr>LRU_deque := elem # LRU_deque kv1,
                                        elems := (elems kv1)(elem \<mapsto>
                                                   \<lparr>key = k, val = v, expiresAt = expPtr\<rparr>),
                                        next_ref := Suc elem,
                                        Cache := m\<rparr>
                          in (case persist J kv2 fs ''SET'' k v ttl_duration of
                                Inl p \<Rightarrow> Inl p
                              | Inr (kv3, fs3) \<Rightarrow> Inr (True, kv3, fs3))))))"

definition Delete ::
  "'v lib \<Rightarrow> 'v OpenCache \<Rightarrow> fs \<Rightarrow> gokey \<Rightarrow> panic + (bool \<times> 'v OpenCache \<times> fs)" where
  "Delete J kv fs k =
     (case ValidateKey k of
        Some err \<Rightarrow> Inr (False, kv, fs)
      | None \<Rightarrow>
        (case map_index (Cache kv) k of
           Inl p \<Rightarrow> Inl p
         | Inr (Some elem) \<Rightarrow>
             (case map_delete (Cache kv) k of
                Inl p \<Rightarrow> Inl p
              | Inr m \<Rightarrow>
                  let kv1 = kv\<lparr>LRU_deque := Remove (LRU_deque kv) elem, Cache := m\<rparr>
                  in (case persist J kv1 fs ''DELETE'' k None None of
                        Inl p \<Rightarrow> Inl p
                      | Inr (kv2, fs2) \<Rightarrow> Inr (True, kv2, fs2)))
         | Inr None \<Rightarrow> Inr (False, kv, fs)))"

definition Len :: "'v OpenCache \<Rightarrow> int" where
  "Len kv = int (map_len (Cache kv))"

text \<open>
  The loop of \<open>ReplayLog\<close> over the scanned lines. \<open>clock i\<close> is the reading of
  \<^verbatim>\<open>time.Now()\<close> while line \<open>i\<close> is applied.
\<close>

fun replay ::
  "'v lib \<Rightarrow> (nat \<Rightarrow> instant) \<Rightarrow> nat \<Rightarrow> string list \<Rightarrow> 'v OpenCache \<Rightarrow> fs
     \<Rightarrow> panic + ('v OpenCache \<times> fs)" where
  "replay J clock i [] kv fs = Inr (kv, fs)"
| "replay J clock i (line # rest) kv fs =
     (case Unmarshal J line of
        None \<Rightarrow> replay J clock (Suc i) rest kv fs
      | Some entry \<Rightarrow>
          if Op entry = ''SET'' then
            (let ttl = (if 0 <s TTLms entry then Some (TTLms entry * Millisecond) else None)
             in case Set J kv fs (clock i) (KStr (Key entry)) (Value entry) ttl of
                  Inl p \<Rightarrow> Inl p
                | Inr (ok, kv', fs') \<Rightarrow> replay J clock (Suc i) rest kv' fs')
          else if Op entry = ''DELETE'' then
            (case Delete J kv fs (KStr (Key entry)) of
               Inl p \<Rightarrow> Inl p
             | Inr (ok, kv', fs') \<Rightarrow> replay J clock (Suc i) rest kv' fs')
          else replay J clock (Suc i) rest kv fs)"

text \<open>
  \<open>ReplayLog\<close>: \<^verbatim>\<open>os.Open\<close> fails on a file that does not exist. The persistence flag
  is off while the loop runs and is put back by the deferred function.
\<close>

definition ReplayLog ::
  "'v lib \<Rightarrow> 'v OpenCache \<Rightarrow> fs \<Rightarrow> (nat \<Rightarrow> instant) \<Rightarrow> string
     \<Rightarrow> panic + (io_error option \<times> 'v OpenCache \<times> fs)" where
  "ReplayLog J kv fs clock filename =
     (case files fs filename of
        None \<Rightarrow> Inr (Some OpenError, kv, fs)
      | Some content \<Rightarrow>
          let prevPersistent = Persistent kv;
              kv0 = kv\<lparr>Persistent := False\<rparr>
          in (case ScanLines J content of
                (lines, scan_err) \<Rightarrow>
                  (case replay J clock 0 lines kv0 fs of
                     Inl p \<Rightarrow> Inl p
                   | Inr (kv', fs') \<Rightarrow>
                       Inr (scan_err, kv'\<lparr>Persistent := prevPersistent\<rparr>, fs'))))"

subsection \<open>Callers\<close>

text \<open>
  A caller is a finite sequence of calls of the public operations, each with the clock
  reading it observes. \<open>run\<close> applies the calls in order and stops at the first panic.
\<close>

datatype 'v call =
    CGet gokey instant
  | CSet gokey "'v option" "int64 option" instant
  | CDelete gokey
  | CReplay string "nat \<Rightarrow> instant"

fun step ::
  "'v lib \<Rightarrow> 'v call \<Rightarrow> 'v OpenCache \<Rightarrow> fs \<Rightarrow> panic + ('v OpenCache \<times> fs)" where
  "step J (CGet k now) kv fs =
     (case Get kv now k of Inl p \<Rightarrow> Inl p | Inr (res, kv') \<Rightarrow> Inr (kv', fs))"
| "step J (CSet k v ttl now) kv fs =
     (case Set J kv fs now k v ttl of Inl p \<Rightarrow> Inl p | Inr (ok, kv', fs') \<Rightarrow> Inr (kv', fs'))"
| "step J (CDelete k) kv fs =
     (case Delete J kv fs k of Inl p \<Rightarrow> Inl p | Inr (ok, kv', fs') \<Rightarrow> Inr (kv', fs'))"
| "step J (CReplay filename clock) kv fs =
     (case ReplayLog J kv fs clock filename of
        Inl p \<Rightarrow> Inl p
      | Inr (err, kv', fs') \<Rightarrow> Inr (kv', fs'))"

fun run ::
  "'v lib \<Rightarrow> 'v call list \<Rightarrow> 'v OpenCache \<Rightarrow> fs \<Rightarrow> panic + ('v OpenCache \<times> fs)" where
  "run J [] kv fs = Inr (kv, fs)"
| "run J (c # cs) kv fs =
     (case step J c kv fs of Inl p \<Rightarrow> Inl p | Inr (kv', fs') \<Rightarrow> run J cs kv' fs')"

fun is_mutation :: "'v call \<Rightarrow> bool" where
  "is_mutation (CSet k v ttl now) = True"
| "is_mutation (CDelete k) = True"
| "is_mutation c = False"

text \<open>The record that a mutating call hands to \<open>AppendToLog\<close>.\<close>

fun record_of :: "'v call \<Rightarrow> panic + 'v LogEntry" where
  "record_of (CSet k v ttl now) = makeLogEntry ''SET'' k v ttl"
| "record_of (CDelete k) = makeLogEntry ''DELETE'' k None None"
| "record_of c = Inl InterfaceConversion"

subsection \<open>Observations and invariants\<close>

definition is_str :: "gokey \<Rightarrow> bool" where
  "is_str k = (case k of KStr s \<Rightarrow> True | _ \<Rightarrow> False)"

text \<open>The path that \<open>AppendToLog\<close> opens.\<close>

definition eff_path :: "'v OpenCache \<Rightarrow> string" where
  "eff_path kv = (if length (LogPath kv) = 0 then ''appendonly.aof'' else LogPath kv)"

text \<open>The same, on the path given to the constructor.\<close>

definition default_path :: "string \<Rightarrow> string" where
  "default_path p = (if length p = 0 then ''appendonly.aof'' else p)"

definition log_lines :: "fs \<Rightarrow> string \<Rightarrow> string list" where
  "log_lines fs p = (case files fs p of Some ls \<Rightarrow> ls | None \<Rightarrow> [])"

text \<open>The value and the expiry stored under a key, and the keys along the list.\<close>

definition stored :: "'v OpenCache \<Rightarrow> gokey \<Rightarrow> 'v option option" where
  "stored kv k =
     (case entries (Cache kv) k of None \<Rightarrow> None | Some r \<Rightarrow> map_option val (elems kv r))"

definition expiry :: "'v OpenCache \<Rightarrow> gokey \<Rightarrow> instant option option" where
  "expiry kv k =
     (case entries (Cache kv) k of
        None \<Rightarrow> None
      | Some r \<Rightarrow> map_option expiresAt (elems kv r))"

definition deque_keys :: "'v OpenCache \<Rightarrow> gokey option list" where
  "deque_keys kv = map (\<lambda>r. map_option key (elems kv r)) (LRU_deque kv)"

text \<open>
  The line that the library writes for a record decodes to a record with the same operation
  and key, whose value is what \<open>tr\<close> makes of the record's value. (For
  \<^verbatim>\<open>encoding/json\<close>, \<open>tr\<close> leaves a string, a boolean and nil as they are and turns an
  \<^verbatim>\<open>int\<close> into a \<^verbatim>\<open>float64\<close>.)
\<close>

definition decodes_as :: "'v lib \<Rightarrow> ('v option \<Rightarrow> 'v option) \<Rightarrow> 'v LogEntry \<Rightarrow> bool" where
  "decodes_as J tr e =
     (case Marshal J e of
        None \<Rightarrow> False
      | Some d \<Rightarrow>
          (case Unmarshal J d of
             None \<Rightarrow> False
           | Some e' \<Rightarrow> Op e' = Op e \<and> Key e' = Key e \<and> Value e' = tr (Value e)))"

text \<open>
  Two caches hold the same keys, in the same order, and the values of the second are what
  \<open>tr\<close> makes of the values of the first; the expiry instants, the persistence flag and
  the log path may differ.
\<close>

definition content_upto ::
  "('v option \<Rightarrow> 'v option) \<Rightarrow> 'v OpenCache \<Rightarrow> 'v OpenCache \<Rightarrow> bool" where
  "content_upto tr a b \<longleftrightarrow>
     Cache a = Cache b \<and> LRU_deque a = LRU_deque b \<and> next_ref a = next_ref b
     \<and> Capacity a = Capacity b
     \<and> (\<forall>r. map_option (\<lambda>e. (key e, tr (val e))) (elems a r)
            = map_option (\<lambda>e. (key e, val e)) (elems b r))"

text \<open>
  The representation invariant: what a lookup finds is an element of the list whose entry
  has the key looked up; every element of the list has an entry with a valid, hashable
  key, under which the map finds the element unless the key is NaN; a persistent cache
  holds string keys only; the list is no longer than the capacity.
\<close>

definition wf :: "'v OpenCache \<Rightarrow> bool" where
  "wf kv \<longleftrightarrow>
     distinct (LRU_deque kv)
     \<and> (\<forall>k r. entries (Cache kv) k = Some r \<longrightarrow>
            r \<in> set (LRU_deque kv) \<and> (\<exists>e. elems kv r = Some e \<and> key e = k))
     \<and> (\<forall>r \<in> set (LRU_deque kv).
            \<exists>e. elems kv r = Some e \<and> ValidateKey (key e) = None \<and> hashable (key e)
              \<and> (Persistent kv \<longrightarrow> is_str (key e))
              \<and> (key e = KNaN \<or> entries (Cache kv) (key e) = Some r))
     \<and> (\<forall>r \<in> set (LRU_deque kv). r < next_ref kv)
     \<and> entries (Cache kv) KNaN = None
     \<and> 1 \<le> Capacity kv
     \<and> int (length (LRU_deque kv)) \<le> Capacity kv"

subsection \<open>Example surroundings\<close>

text \<open>
  A library instance for the examples: a line is the operation and the key, the decoder
  knows the records that the examples write, and the scanner yields every line.
\<close>

definition demo_lib :: "nat lib" where
  "demo_lib =
     \<lparr>Marshal = (\<lambda>e. Some (Op e @ '' '' @ Key e)),
      Unmarshal = (\<lambda>l.
        if l = ''SET a'' then Some \<lparr>Op = ''SET'', Key = ''a'', Value = Some 1, TTLms = 0\<rparr>
        else if l = ''SET b'' then Some \<lparr>Op = ''SET'', Key = ''b'', Value = Some 2, TTLms = 0\<rparr>
        else if l = ''DELETE a'' then Some \<lparr>Op = ''DELETE'', Key = ''a'', Value = None, TTLms = 0\<rparr>
        else if l = ''SET c 1500'' then
          Some \<lparr>Op = ''SET'', Key = ''c'', Value = Some 3, TTLms = 1500\<rparr>
        else if l = ''SET d 9223372036855'' then
          Some \<lparr>Op = ''SET'', Key = ''d'', Value = Some 4, TTLms = 9223372036855\<rparr>
        else None),
      ScanLines = (\<lambda>ls. (ls, None))\<rparr>"

text \<open>
  A second instance, for values as \<^verbatim>\<open>encoding/json\<close> treats them: an \<^verbatim>\<open>int\<close> is
  written as a number and read back as a \<^verbatim>\<open>float64\<close>, a string is read back as it was
  written, and a channel cannot be encoded; a byte of a key that is not valid UTF-8 is
  written as U+FFFD; the scanner stops with an error at the first line of 64 KiB or more.
  \<open>json_image\<close> is what a value is once written and read back.
\<close>

datatype goval = VInt int | VFloat64 int | VStr string | VChan

definition json_image :: "goval option \<Rightarrow> goval option" where
  "json_image v = (case v of Some (VInt n) \<Rightarrow> Some (VFloat64 n) | _ \<Rightarrow> v)"

definition long_key :: string where
  "long_key = replicate 70000 CHR ''k''"

definition scan64k :: "string list \<Rightarrow> string list \<times> io_error option" where
  "scan64k ls =
     (takeWhile (\<lambda>l. length l < 65536) ls,
      if list_all (\<lambda>l. length l < 65536) ls then None else Some ScanError)"

definition json_demo :: "goval lib" where
  "json_demo =
     \<lparr>Marshal = (\<lambda>e.
        if Value e = Some VChan then None
        else Some (Op e @ '' '' @
               (if Key e = [CHR 0xFF] then [CHR 0xEF, CHR 0xBF, CHR 0xBD] else Key e))),
      Unmarshal = (\<lambda>l.
        if l = ''SET a'' then
          Some \<lparr>Op = ''SET'', Key = ''a'', Value = Some (VFloat64 1), TTLms = 0\<rparr>
        else if l = ''SET b'' then
          Some \<lparr>Op = ''SET'', Key = ''b'', Value = Some (VStr ''x''), TTLms = 0\<rparr>
        else if l = ''DELETE a'' then
          Some \<lparr>Op = ''DELETE'', Key = ''a'', Value = None, TTLms = 0\<rparr>
        else if l = ''SET '' @ [CHR 0xEF, CHR 0xBF, CHR 0xBD] then
          Some \<lparr>Op = ''SET'', Key = [CHR 0xEF, CHR 0xBF, CHR 0xBD],
                Value = Some (VStr ''x''), TTLms = 0\<rparr>
        else None),
      ScanLines = scan64k\<rparr>"

definition fs_empty :: fs where
  "fs_empty = \<lparr>files = Map.empty, unwritable = {}\<rparr>"

text \<open>The log file exists, is empty, and cannot be opened for writing.\<close>

definition fs_readonly :: fs where
  "fs_readonly = \<lparr>files = [''log.aof'' \<mapsto> []], unwritable = {''log.aof''}\<rparr>"

definition fs_with :: "string list \<Rightarrow> fs" where
  "fs_with ls = \<lparr>files = [''log.aof'' \<mapsto> ls], unwritable = {}\<rparr>"

definition noon :: "nat \<Rightarrow> instant" where
  "noon i = 1000"

definition fresh :: "nat OpenCache" where
  "fresh = NewOpenCache 2 False ''log.aof''"

definition fresh_persistent :: "nat OpenCache" where
  "fresh_persistent = NewOpenCache 2 True ''log.aof''"

section \<open>The built-in map and the representation invariant\<close>

lemma map_index_simps:
  "hashable k \<Longrightarrow> k \<noteq> KNaN \<Longrightarrow> map_index m k = Inr (entries m k)"
  "map_index m KNaN = Inr None"
  "\<not> hashable k \<Longrightarrow> map_index m k = Inl UnhashableKey"
  by (simp_all add: map_index_def)

lemma map_index_Some:
  "map_index m k = Inr (Some r) \<longleftrightarrow> hashable k \<and> k \<noteq> KNaN \<and> entries m k = Some r"
  by (auto simp: map_index_def)

lemma map_index_Inr:
  "map_index m k = Inr x \<Longrightarrow> hashable k"
  by (auto simp: map_index_def split: if_splits)

lemma map_delete_simps:
  "hashable k \<Longrightarrow> k \<noteq> KNaN \<Longrightarrow> map_delete m k = Inr (m\<lparr>entries := (entries m)(k := None)\<rparr>)"
  "map_delete m KNaN = Inr m"
  "\<not> hashable k \<Longrightarrow> map_delete m k = Inl UnhashableKey"
  by (simp_all add: map_delete_def)

lemma map_assign_simps:
  "hashable k \<Longrightarrow> k \<noteq> KNaN \<Longrightarrow> map_assign m k v = Inr (m\<lparr>entries := (entries m)(k \<mapsto> v)\<rparr>)"
  "map_assign m KNaN v = Inr (m\<lparr>nan_entries := v # nan_entries m\<rparr>)"
  "\<not> hashable k \<Longrightarrow> map_assign m k v = Inl UnhashableKey"
  by (simp_all add: map_assign_def)

lemma map_assign_ok: "hashable k \<Longrightarrow> \<exists>m. map_assign m0 k v = Inr m"
  by (cases "k = KNaN") (simp_all add: map_assign_def)

lemma map_delete_ok: "hashable k \<Longrightarrow> \<exists>m. map_delete m0 k = Inr m"
  by (cases "k = KNaN") (simp_all add: map_delete_def)

lemma hashable_KStr [simp]: "hashable (KStr s)"
  by simp

lemma ValidateKey_KStr [simp]: "ValidateKey (KStr s) = None"
  by (simp add: ValidateKey_def)

lemma is_str_KStr [simp]: "is_str (KStr s)"
  by (simp add: is_str_def)

lemma is_str_props: "is_str k \<Longrightarrow> hashable k \<and> k \<noteq> KNaN \<and> ValidateKey k = None"
  by (cases k) (simp_all add: is_str_def)

lemma wf_NewOpenCache: "wf (NewOpenCache c p path)"
  by (simp add: wf_def NewOpenCache_def map_make_def)

lemma wf_elem:
  assumes "wf kv" "r \<in> set (LRU_deque kv)"
  obtains e where "elems kv r = Some e" "ValidateKey (key e) = None" "hashable (key e)"
    "Persistent kv \<longrightarrow> is_str (key e)" "key e = KNaN \<or> entries (Cache kv) (key e) = Some r"
  using assms unfolding wf_def by blast

lemma wf_lookup:
  assumes "wf kv" "entries (Cache kv) k = Some r"
  shows "r \<in> set (LRU_deque kv)" "\<exists>e. elems kv r = Some e \<and> key e = k"
    "ValidateKey k = None" "hashable k" "k \<noteq> KNaN" "Persistent kv \<longrightarrow> is_str k"
proof -
  show m: "r \<in> set (LRU_deque kv)" and e: "\<exists>e. elems kv r = Some e \<and> key e = k"
    using assms unfolding wf_def by blast+
  from e obtain e where e': "elems kv r = Some e" "key e = k" by blast
  from wf_elem [OF assms(1) m] e' show "ValidateKey k = None" "hashable k"
    "Persistent kv \<longrightarrow> is_str k"
    by auto
  show "k \<noteq> KNaN" using assms unfolding wf_def by auto
qed

lemma wf_delete_ok:
  assumes "wf kv" "r \<in> set (LRU_deque kv)" "elems kv r = Some e"
  shows "map_delete (Cache kv) (key e) =
           Inr (if key e = KNaN then Cache kv
                else (Cache kv)\<lparr>entries := (entries (Cache kv))(key e := None)\<rparr>)"
  using wf_elem [OF assms(1,2)] assms(3) by (auto simp: map_delete_def)

lemma wf_remove:
  assumes "wf kv" "r \<in> set (LRU_deque kv)" "elems kv r = Some e"
    and "map_delete (Cache kv) (key e) = Inr (Cache kv')"
    and "LRU_deque kv' = remove1 r (LRU_deque kv)"
    and "elems kv' = elems kv" "next_ref kv' = next_ref kv"
    and "Capacity kv' = Capacity kv" "Persistent kv' = Persistent kv"
  shows "wf kv'"
proof -
  have d: "distinct (LRU_deque kv)" using assms(1) by (simp add: wf_def)
  have s: "set (LRU_deque kv') = set (LRU_deque kv) - {r}"
    using d assms(5) by simp
  have l: "length (LRU_deque kv') \<le> length (LRU_deque kv)"
    using assms(5) by (simp add: length_remove1)
  have nan: "entries (Cache kv) KNaN = None" using assms(1) by (simp add: wf_def)
  have C: "Cache kv' = (if key e = KNaN then Cache kv
                else (Cache kv)\<lparr>entries := (entries (Cache kv))(key e := None)\<rparr>)"
    using wf_delete_ok [OF assms(1,2,3)] assms(4) by simp
  have own: "key e = KNaN \<or> entries (Cache kv) (key e) = Some r"
    using wf_elem [OF assms(1,2)] assms(3) by auto
  have notr: "k' = key e" if "entries (Cache kv) k' = Some r" for k'
    using wf_lookup(2) [OF assms(1) that] assms(3) by auto
  show ?thesis
    unfolding wf_def
  proof (intro conjI)
    show "distinct (LRU_deque kv')" using d assms(5) by simp
    show "\<forall>k' r'. entries (Cache kv') k' = Some r' \<longrightarrow>
            r' \<in> set (LRU_deque kv') \<and> (\<exists>e. elems kv' r' = Some e \<and> key e = k')"
    proof (intro allI impI)
      fix k' r' assume a: "entries (Cache kv') k' = Some r'"
      then have b: "entries (Cache kv) k' = Some r'" using C by (auto split: if_splits)
      have "r' \<noteq> r"
      proof
        assume "r' = r"
        then have "k' = key e" using notr b by simp
        then show False using a b C nan by (auto split: if_splits)
      qed
      then show "r' \<in> set (LRU_deque kv') \<and> (\<exists>e. elems kv' r' = Some e \<and> key e = k')"
        using wf_lookup(1,2) [OF assms(1) b] s assms(6) by simp
    qed
    show "\<forall>r'\<in>set (LRU_deque kv').
            \<exists>e. elems kv' r' = Some e \<and> ValidateKey (key e) = None \<and> hashable (key e)
              \<and> (Persistent kv' \<longrightarrow> is_str (key e))
              \<and> (key e = KNaN \<or> entries (Cache kv') (key e) = Some r')"
    proof
      fix r' assume "r' \<in> set (LRU_deque kv')"
      then have m: "r' \<in> set (LRU_deque kv)" "r' \<noteq> r" using s by auto
      from wf_elem [OF assms(1) m(1)] obtain e' where
        e': "elems kv r' = Some e'" "ValidateKey (key e') = None" "hashable (key e')"
          "Persistent kv \<longrightarrow> is_str (key e')"
          "key e' = KNaN \<or> entries (Cache kv) (key e') = Some r'"
        by blast
      have "key e' = KNaN \<or> entries (Cache kv') (key e') = Some r'"
      proof (cases "key e' = KNaN")
        case False
        then have x: "entries (Cache kv) (key e') = Some r'" using e'(5) by simp
        have "key e' \<noteq> key e" using x own m(2) False by auto
        then show ?thesis using x C by auto
      qed simp
      then show "\<exists>e. elems kv' r' = Some e \<and> ValidateKey (key e) = None \<and> hashable (key e)
              \<and> (Persistent kv' \<longrightarrow> is_str (key e))
              \<and> (key e = KNaN \<or> entries (Cache kv') (key e) = Some r')"
        using e' assms(6,9) by simp
    qed
    show "\<forall>r'\<in>set (LRU_deque kv'). r' < next_ref kv'"
      using assms(1) s unfolding wf_def assms(7) by auto
    show "entries (Cache kv') KNaN = None" using nan C by auto
    show "1 \<le> Capacity kv'" using assms(1) unfolding wf_def assms(8) by simp
    show "int (length (LRU_deque kv')) \<le> Capacity kv'"
      using assms(1) l unfolding wf_def assms(8) by linarith
  qed
qed

lemma wf_reorder:
  assumes "wf kv"
    and "Cache kv' = Cache kv"
    and "set (LRU_deque kv') = set (LRU_deque kv)" "distinct (LRU_deque kv')"
    and "length (LRU_deque kv') = length (LRU_deque kv)"
    and "elems kv' = elems kv" "next_ref kv' = next_ref kv"
    and "Capacity kv' = Capacity kv" "Persistent kv' \<longrightarrow> Persistent kv"
  shows "wf kv'"
  using assms unfolding wf_def by auto

lemma MoveToFront_props:
  "distinct l \<Longrightarrow> set (MoveToFront l e) = set l \<and> distinct (MoveToFront l e)
     \<and> length (MoveToFront l e) = length l"
  by (auto simp: MoveToFront_def length_remove1 dest: length_pos_if_in_set)

lemma wf_update:
  assumes "wf kv" "r \<in> set (LRU_deque kv)" "elems kv r = Some e" "key e' = key e"
    and "Cache kv' = Cache kv"
    and "set (LRU_deque kv') = set (LRU_deque kv)" "distinct (LRU_deque kv')"
    and "length (LRU_deque kv') = length (LRU_deque kv)"
    and "elems kv' = (elems kv)(r \<mapsto> e')" "next_ref kv' = next_ref kv"
    and "Capacity kv' = Capacity kv" "Persistent kv' \<longrightarrow> Persistent kv"
  shows "wf kv'"
  unfolding wf_def
proof (intro conjI)
  show "distinct (LRU_deque kv')" by (rule assms(7))
  show "\<forall>k' r'. entries (Cache kv') k' = Some r' \<longrightarrow>
          r' \<in> set (LRU_deque kv') \<and> (\<exists>e. elems kv' r' = Some e \<and> key e = k')"
  proof (intro allI impI)
    fix k' r' assume "entries (Cache kv') k' = Some r'"
    then have c: "entries (Cache kv) k' = Some r'" by (simp add: assms(5))
    from wf_lookup(1,2) [OF assms(1) c] obtain e0 where
      e0: "r' \<in> set (LRU_deque kv)" "elems kv r' = Some e0" "key e0 = k'" by blast
    show "r' \<in> set (LRU_deque kv') \<and> (\<exists>e. elems kv' r' = Some e \<and> key e = k')"
      using e0 assms(3,4,6,9) by (cases "r' = r") simp_all
  qed
  show "\<forall>r'\<in>set (LRU_deque kv').
          \<exists>e. elems kv' r' = Some e \<and> ValidateKey (key e) = None \<and> hashable (key e)
            \<and> (Persistent kv' \<longrightarrow> is_str (key e))
            \<and> (key e = KNaN \<or> entries (Cache kv') (key e) = Some r')"
  proof
    fix r' assume "r' \<in> set (LRU_deque kv')"
    then have m: "r' \<in> set (LRU_deque kv)" by (simp add: assms(6))
    from wf_elem [OF assms(1) m] obtain e0 where
      e0: "elems kv r' = Some e0" "ValidateKey (key e0) = None" "hashable (key e0)"
        "Persistent kv \<longrightarrow> is_str (key e0)"
        "key e0 = KNaN \<or> entries (Cache kv) (key e0) = Some r'"
      by blast
    show "\<exists>e. elems kv' r' = Some e \<and> ValidateKey (key e) = None \<and> hashable (key e)
            \<and> (Persistent kv' \<longrightarrow> is_str (key e))
            \<and> (key e = KNaN \<or> entries (Cache kv') (key e) = Some r')"
      using e0 assms(3,4,5,9,12) by (cases "r' = r") auto
  qed
  show "\<forall>r'\<in>set (LRU_deque kv'). r' < next_ref kv'"
    using assms(1,6,10) unfolding wf_def by simp
  show "entries (Cache kv') KNaN = None" using assms(1,5) unfolding wf_def by simp
  show "1 \<le> Capacity kv'" using assms(1,11) unfolding wf_def by simp
  show "int (length (LRU_deque kv')) \<le> Capacity kv'"
    using assms(1,8,11) unfolding wf_def by simp
qed

lemma wf_insert:
  assumes "wf kv" "ValidateKey k = None" "hashable k" "Persistent kv \<longrightarrow> is_str k"
    and "k = KNaN \<or> entries (Cache kv) k = None"
    and "int (length (LRU_deque kv)) < Capacity kv"
    and "map_assign (Cache kv) k (next_ref kv) = Inr (Cache kv')"
    and "LRU_deque kv' = next_ref kv # LRU_deque kv"
    and "elems kv' = (elems kv)(next_ref kv \<mapsto> e')" "key e' = k"
    and "next_ref kv' = Suc (next_ref kv)"
    and "Capacity kv' = Capacity kv" "Persistent kv' = Persistent kv"
  shows "wf kv'"
proof -
  have fresh: "next_ref kv \<notin> set (LRU_deque kv)"
    using assms(1) unfolding wf_def by auto
  have nan: "entries (Cache kv) KNaN = None" using assms(1) by (simp add: wf_def)
  have C: "Cache kv' = (if k = KNaN then (Cache kv)\<lparr>nan_entries := next_ref kv # nan_entries (Cache kv)\<rparr>
                        else (Cache kv)\<lparr>entries := (entries (Cache kv))(k \<mapsto> next_ref kv)\<rparr>)"
    using assms(3,7) by (auto simp: map_assign_def split: if_splits)
  show ?thesis
    unfolding wf_def
  proof (intro conjI)
    show "distinct (LRU_deque kv')" using assms(1) fresh unfolding wf_def assms(8) by simp
    show "\<forall>k' r'. entries (Cache kv') k' = Some r' \<longrightarrow>
            r' \<in> set (LRU_deque kv') \<and> (\<exists>e. elems kv' r' = Some e \<and> key e = k')"
    proof (intro allI impI)
      fix k' r' assume a: "entries (Cache kv') k' = Some r'"
      show "r' \<in> set (LRU_deque kv') \<and> (\<exists>e. elems kv' r' = Some e \<and> key e = k')"
      proof (cases "k \<noteq> KNaN \<and> k' = k")
        case True
        then show ?thesis using a C assms(8,9,10) by auto
      next
        case False
        then have b: "entries (Cache kv) k' = Some r'" using a C by (auto split: if_splits)
        from wf_lookup(1,2) [OF assms(1) b] fresh show ?thesis
          using assms(8,9) by auto
      qed
    qed
    show "\<forall>r'\<in>set (LRU_deque kv').
            \<exists>e. elems kv' r' = Some e \<and> ValidateKey (key e) = None \<and> hashable (key e)
              \<and> (Persistent kv' \<longrightarrow> is_str (key e))
              \<and> (key e = KNaN \<or> entries (Cache kv') (key e) = Some r')"
    proof
      fix r' assume "r' \<in> set (LRU_deque kv')"
      then consider "r' = next_ref kv" | "r' \<in> set (LRU_deque kv)" "r' \<noteq> next_ref kv"
        using fresh by (auto simp: assms(8))
      then show "\<exists>e. elems kv' r' = Some e \<and> ValidateKey (key e) = None \<and> hashable (key e)
              \<and> (Persistent kv' \<longrightarrow> is_str (key e))
              \<and> (key e = KNaN \<or> entries (Cache kv') (key e) = Some r')"
      proof cases
        case 1
        then show ?thesis using assms(2,3,4,9,10,13) C by auto
      next
        case 2
        from wf_elem [OF assms(1) 2(1)] obtain e0 where
          e0: "elems kv r' = Some e0" "ValidateKey (key e0) = None" "hashable (key e0)"
            "Persistent kv \<longrightarrow> is_str (key e0)"
            "key e0 = KNaN \<or> entries (Cache kv) (key e0) = Some r'"
          by blast
        have "key e0 = KNaN \<or> entries (Cache kv') (key e0) = Some r'"
        proof (cases "key e0 = KNaN")
          case False
          then have x: "entries (Cache kv) (key e0) = Some r'" using e0(5) by simp
          then have "key e0 \<noteq> k \<or> k = KNaN" using assms(5) by auto
          then show ?thesis using x C False by auto
        qed simp
        then show ?thesis using e0 2(2) assms(9,13) by simp
      qed
    qed
    show "\<forall>r'\<in>set (LRU_deque kv'). r' < next_ref kv'"
      using assms(1) unfolding wf_def assms(8,11) by auto
    show "entries (Cache kv') KNaN = None" using nan C by auto
    show "1 \<le> Capacity kv'" using assms(1) unfolding wf_def assms(12) by simp
    show "int (length (LRU_deque kv')) \<le> Capacity kv'"
      using assms(6) unfolding assms(8,12) by simp
  qed
qed

section \<open>The operations keep the invariant\<close>

lemma persist_cases:
  "persist J kv fs op k v ttl =
     (if Persistent kv then
        (if is_str k then Inr (AppendToLog J kv fs (projr (makeLogEntry op k v ttl)))
         else Inl InterfaceConversion)
      else Inr (kv, fs))"
  by (cases k) (simp_all add: persist_def makeLogEntry_def is_str_def)

lemma AppendToLog_frame:
  assumes "AppendToLog J kv fs e = (kv', fs')"
  shows "Cache kv' = Cache kv" "LRU_deque kv' = LRU_deque kv" "elems kv' = elems kv"
    "next_ref kv' = next_ref kv" "Capacity kv' = Capacity kv" "Persistent kv' = Persistent kv"
  using assms by (auto simp: AppendToLog_def Let_def split: if_splits)

lemma persist_frame:
  assumes "persist J kv fs op k v ttl = Inr (kv', fs')"
  shows "Cache kv' = Cache kv" "LRU_deque kv' = LRU_deque kv" "elems kv' = elems kv"
    "next_ref kv' = next_ref kv" "Capacity kv' = Capacity kv" "Persistent kv' = Persistent kv"
  using assms AppendToLog_frame [of J kv fs _ kv' fs']
  by (auto simp: persist_def split: if_splits sum.splits)

lemma persist_off:
  "\<not> Persistent kv \<Longrightarrow> persist J kv fs op k v ttl = Inr (kv, fs)"
  by (simp add: persist_def)

lemma persist_returns:
  assumes "Persistent kv \<longrightarrow> is_str k"
  shows "\<exists>kv' fs'. persist J kv fs op k v ttl = Inr (kv', fs')"
  using assms by (cases "AppendToLog J kv fs (projr (makeLogEntry op k v ttl))")
    (auto simp: persist_cases)

lemma frame_wf:
  assumes "wf kv"
    and "Cache kv' = Cache kv" "LRU_deque kv' = LRU_deque kv" "elems kv' = elems kv"
    "next_ref kv' = next_ref kv" "Capacity kv' = Capacity kv" "Persistent kv' \<longrightarrow> Persistent kv"
  shows "wf kv'"
  using assms(1) by (rule wf_reorder) (use assms in \<open>auto simp: wf_def\<close>)

lemma remove1_last:
  "distinct l \<Longrightarrow> l \<noteq> [] \<Longrightarrow> remove1 (last l) l = butlast l"
  by (induction l) (auto simp: remove1_idem)

lemma evict_room:
  "int (length (LRU_deque kv)) < Capacity kv \<Longrightarrow> evict kv = Inr kv"
  by (simp add: evict_def)

lemma evict_full:
  assumes "wf kv" "Capacity kv \<le> int (length (LRU_deque kv))"
  shows "\<exists>e m. elems kv (last (LRU_deque kv)) = Some e
           \<and> map_delete (Cache kv) (key e) = Inr m
           \<and> evict kv = Inr (kv\<lparr>Cache := m, LRU_deque := butlast (LRU_deque kv)\<rparr>)"
proof -
  have ne: "LRU_deque kv \<noteq> []" using assms unfolding wf_def by auto
  then have l: "last (LRU_deque kv) \<in> set (LRU_deque kv)" by simp
  from wf_elem [OF assms(1) l] obtain e where e: "elems kv (last (LRU_deque kv)) = Some e"
    by blast
  note m = wf_delete_ok [OF assms(1) l e]
  have "distinct (LRU_deque kv)" using assms(1) by (simp add: wf_def)
  then have "Remove (LRU_deque kv) (last (LRU_deque kv)) = butlast (LRU_deque kv)"
    using ne by (simp add: Remove_def remove1_last)
  then show ?thesis using e m ne assms(2) by (simp add: evict_def Back_def)
qed

lemma evict_wf:
  assumes "wf kv"
  shows "\<exists>kv1. evict kv = Inr kv1 \<and> wf kv1
           \<and> int (length (LRU_deque kv1)) < Capacity kv1
           \<and> (\<forall>k. entries (Cache kv) k = None \<longrightarrow> entries (Cache kv1) k = None)
           \<and> elems kv1 = elems kv \<and> next_ref kv1 = next_ref kv
           \<and> Capacity kv1 = Capacity kv \<and> Persistent kv1 = Persistent kv
           \<and> LogPath kv1 = LogPath kv"
proof (cases "Capacity kv \<le> int (length (LRU_deque kv))")
  case True
  from evict_full [OF assms True] obtain e m where
    e: "elems kv (last (LRU_deque kv)) = Some e"
       "map_delete (Cache kv) (key e) = Inr m"
       "evict kv = Inr (kv\<lparr>Cache := m, LRU_deque := butlast (LRU_deque kv)\<rparr>)"
    by blast
  let ?kv1 = "kv\<lparr>Cache := m, LRU_deque := butlast (LRU_deque kv)\<rparr>"
  have ne: "LRU_deque kv \<noteq> []" using assms True unfolding wf_def by auto
  then have l: "last (LRU_deque kv) \<in> set (LRU_deque kv)" by simp
  have d: "distinct (LRU_deque kv)" using assms by (simp add: wf_def)
  have "wf ?kv1"
    by (rule wf_remove [OF assms l e(1)]) (simp_all add: remove1_last [OF d ne] e(2))
  moreover have "int (length (LRU_deque ?kv1)) < Capacity ?kv1"
    using assms ne unfolding wf_def by (cases "LRU_deque kv") auto
  moreover have "\<forall>k. entries (Cache kv) k = None \<longrightarrow> entries m k = None"
    using e(2) by (auto simp: map_delete_def split: if_splits)
  ultimately show ?thesis using e(3) by simp
next
  case False
  then show ?thesis using assms by (simp add: evict_room)
qed

lemma Get_wf:
  assumes "wf kv" "Get kv now k = Inr (res, kv')"
  shows "wf kv'"
proof (cases "ValidateKey k")
  case (Some err)
  then show ?thesis using assms by (auto simp: Get_def)
next
  case None
  show ?thesis
  proof (cases "map_index (Cache kv) k")
    case (Inl p)
    then show ?thesis using assms None by (simp add: Get_def)
  next
    case (Inr x)
    show ?thesis
    proof (cases x)
      case N: None
      then show ?thesis using assms None Inr by (auto simp: Get_def)
    next
      case (Some r)
      then have c: "entries (Cache kv) k = Some r" using Inr by (simp add: map_index_Some)
      from wf_lookup [OF assms(1) c] obtain e where
        e: "r \<in> set (LRU_deque kv)" "elems kv r = Some e" "key e = k" by blast
      have d: "distinct (LRU_deque kv)" using assms by (simp add: wf_def)
      show ?thesis
      proof (cases "case expiresAt e of Some exp \<Rightarrow> After now exp | None \<Rightarrow> False")
        case True
        then obtain m where m: "map_delete (Cache kv) (key e) = Inr m"
          "kv' = kv\<lparr>Cache := m, LRU_deque := Remove (LRU_deque kv) r\<rparr>"
          using assms(2) None Inr Some e by (auto simp: Get_def split: sum.splits)
        show ?thesis
          unfolding m(2) by (rule wf_remove [OF assms(1) e(1,2)]) (simp_all add: Remove_def m(1))
      next
        case False
        then have "kv' = kv\<lparr>LRU_deque := MoveToFront (LRU_deque kv) r\<rparr>"
          using assms(2) None Inr Some e by (auto simp: Get_def)
        then show ?thesis
          using wf_reorder [OF assms(1), of "kv\<lparr>LRU_deque := MoveToFront (LRU_deque kv) r\<rparr>"]
            MoveToFront_props [OF d, of r] by simp
      qed
    qed
  qed
qed

lemma Set_wf:
  assumes "wf kv" "ValidateKey k = None \<longrightarrow> hashable k \<and> (Persistent kv \<longrightarrow> is_str k)"
  shows "\<exists>ok kv' fs'. Set J kv fs now k v ttl = Inr (ok, kv', fs') \<and> wf kv'"
proof (cases "ValidateKey k")
  case (Some err)
  then show ?thesis using assms by (auto simp: Set_def)
next
  case None
  then have str: "Persistent kv \<longrightarrow> is_str k" and h: "hashable k" using assms(2) by simp_all
  show ?thesis
  proof (cases "k \<noteq> KNaN \<and> entries (Cache kv) k \<noteq> None")
    case True
    then obtain r where c: "entries (Cache kv) k = Some r" by blast
    have mi: "map_index (Cache kv) k = Inr (Some r)" using True c h by (simp add: map_index_Some)
    from wf_lookup [OF assms(1) c] obtain e where
      e: "r \<in> set (LRU_deque kv)" "elems kv r = Some e" "key e = k" by blast
    have d: "distinct (LRU_deque kv)" using assms by (simp add: wf_def)
    define e' where "e' = e\<lparr>val := v,
        expiresAt := (case ttl of Some d \<Rightarrow> Some (Add now d) | None \<Rightarrow> None)\<rparr>"
    define kv1 where "kv1 = kv\<lparr>elems := (elems kv)(r \<mapsto> e'),
        LRU_deque := MoveToFront (LRU_deque kv) r\<rparr>"
    have w1: "wf kv1"
      by (rule wf_update [OF assms(1) e(1,2), of e'])
        (simp_all add: kv1_def e'_def MoveToFront_props [OF d])
    have "Persistent kv1 \<longrightarrow> is_str k" using str by (simp add: kv1_def)
    from persist_returns [OF this] obtain kv2 fs2 where
      p: "persist J kv1 fs ''SET'' k v ttl = Inr (kv2, fs2)" by blast
    have "wf kv2" by (rule frame_wf [OF w1]) (simp_all add: persist_frame [OF p])
    moreover have "Set J kv fs now k v ttl = Inr (True, kv2, fs2)"
      using None mi e p by (simp add: Set_def Let_def kv1_def e'_def)
    ultimately show ?thesis by blast
  next
    case False
    then have mi: "map_index (Cache kv) k = Inr None" using h by (auto simp: map_index_def)
    have free: "k = KNaN \<or> entries (Cache kv) k = None" using False by auto
    from evict_wf [OF assms(1)] obtain kv1 where
      ev: "evict kv = Inr kv1" "wf kv1" "int (length (LRU_deque kv1)) < Capacity kv1"
        "\<forall>k. entries (Cache kv) k = None \<longrightarrow> entries (Cache kv1) k = None"
        "Persistent kv1 = Persistent kv"
      by blast
    obtain m where m: "map_assign (Cache kv1) k (next_ref kv1) = Inr m"
      using map_assign_ok [OF h] by blast
    define kv2 where "kv2 = kv1\<lparr>LRU_deque := next_ref kv1 # LRU_deque kv1,
        elems := (elems kv1)(next_ref kv1 \<mapsto>
           \<lparr>key = k, val = v,
            expiresAt = (case ttl of Some d \<Rightarrow> Some (Add now d) | None \<Rightarrow> None)\<rparr>),
        next_ref := Suc (next_ref kv1),
        Cache := m\<rparr>"
    have w2: "wf kv2"
      by (rule wf_insert [OF ev(2) None h _ _ ev(3), where e' = "\<lparr>key = k, val = v,
            expiresAt = (case ttl of Some d \<Rightarrow> Some (Add now d) | None \<Rightarrow> None)\<rparr>"])
        (use str ev(4,5) free m in \<open>auto simp: kv2_def\<close>)
    have "Persistent kv2 \<longrightarrow> is_str k" using str ev(5) by (simp add: kv2_def)
    from persist_returns [OF this] obtain kv3 fs3 where
      p: "persist J kv2 fs ''SET'' k v ttl = Inr (kv3, fs3)" by blast
    have "wf kv3" by (rule frame_wf [OF w2]) (simp_all add: persist_frame [OF p])
    moreover have "Set J kv fs now k v ttl = Inr (True, kv3, fs3)"
      using None mi ev(1) m p by (simp add: Set_def Let_def kv2_def)
    ultimately show ?thesis by blast
  qed
qed

lemma Delete_wf:
  assumes "wf kv" "ValidateKey k = None \<longrightarrow> hashable k"
  shows "\<exists>ok kv' fs'. Delete J kv fs k = Inr (ok, kv', fs') \<and> wf kv'"
proof (cases "ValidateKey k")
  case (Some err)
  then show ?thesis using assms by (auto simp: Delete_def)
next
  case None
  then have h: "hashable k" using assms(2) by simp
  show ?thesis
  proof (cases "k \<noteq> KNaN \<and> entries (Cache kv) k \<noteq> None")
    case False
    then have "map_index (Cache kv) k = Inr None" using h by (auto simp: map_index_def)
    then show ?thesis using assms None by (auto simp: Delete_def)
  next
    case True
    then obtain r where c: "entries (Cache kv) k = Some r" by blast
    have mi: "map_index (Cache kv) k = Inr (Some r)" using True c h by (simp add: map_index_Some)
    from wf_lookup [OF assms(1) c] obtain e where
      e: "r \<in> set (LRU_deque kv)" "elems kv r = Some e" "key e = k"
      and s: "Persistent kv \<longrightarrow> is_str k"
      by blast
    obtain m where m: "map_delete (Cache kv) k = Inr m"
      using map_delete_ok [OF h] by blast
    define kv1 where "kv1 = kv\<lparr>LRU_deque := Remove (LRU_deque kv) r, Cache := m\<rparr>"
    have w1: "wf kv1"
      by (rule wf_remove [OF assms(1) e(1,2)]) (simp_all add: kv1_def Remove_def e(3) m)
    have "Persistent kv1 \<longrightarrow> is_str k" using s by (simp add: kv1_def)
    from persist_returns [OF this] obtain kv2 fs2 where
      p: "persist J kv1 fs ''DELETE'' k None None = Inr (kv2, fs2)" by blast
    have "wf kv2" by (rule frame_wf [OF w1]) (simp_all add: persist_frame [OF p])
    moreover have "Delete J kv fs k = Inr (True, kv2, fs2)"
      using None mi m p by (simp add: Delete_def Let_def kv1_def)
    ultimately show ?thesis by blast
  qed
qed

section \<open>Persistence as a second phase\<close>

lemma evict_flag:
  "evict (kv\<lparr>Persistent := p\<rparr>) = map_sum id (\<lambda>kv'. kv'\<lparr>Persistent := p\<rparr>) (evict kv)"
  by (simp add: evict_def split: option.splits sum.splits)

lemma Set_decompose:
  "Set J kv fs now k v ttl =
     (case Set J (kv\<lparr>Persistent := False\<rparr>) fs now k v ttl of
        Inl p \<Rightarrow> Inl p
      | Inr (ok, kvN, fsN) \<Rightarrow>
          if ok then
            (case persist J (kvN\<lparr>Persistent := Persistent kv\<rparr>) fs ''SET'' k v ttl of
               Inl p \<Rightarrow> Inl p
             | Inr (kv2, fs2) \<Rightarrow> Inr (True, kv2, fs2))
          else Inr (False, kv, fs))"
  by (simp add: Set_def persist_off evict_def Let_def split: option.splits sum.splits)

lemma Delete_decompose:
  "Delete J kv fs k =
     (case Delete J (kv\<lparr>Persistent := False\<rparr>) fs k of
        Inl p \<Rightarrow> Inl p
      | Inr (ok, kvN, fsN) \<Rightarrow>
          if ok then
            (case persist J (kvN\<lparr>Persistent := Persistent kv\<rparr>) fs ''DELETE'' k None None of
               Inl p \<Rightarrow> Inl p
             | Inr (kv2, fs2) \<Rightarrow> Inr (True, kv2, fs2))
          else Inr (False, kv, fs))"
  by (simp add: Delete_def persist_off Let_def split: option.splits sum.splits)

lemma content_upto_elems:
  assumes "content_upto tr a b"
  shows "elems a r = None \<longleftrightarrow> elems b r = None"
    and "elems a r = Some e \<Longrightarrow> \<exists>e'. elems b r = Some e' \<and> key e' = key e \<and> val e' = tr (val e)"
proof -
  have m: "map_option (\<lambda>e. (key e, tr (val e))) (elems a r)
             = map_option (\<lambda>e. (key e, val e)) (elems b r)"
    using assms by (simp add: content_upto_def)
  show "elems a r = None \<longleftrightarrow> elems b r = None"
    using m by (cases "elems a r"; cases "elems b r") simp_all
  show "elems a r = Some e \<Longrightarrow> \<exists>e'. elems b r = Some e' \<and> key e' = key e \<and> val e' = tr (val e)"
    using m by (cases "elems b r") auto
qed

lemma sim_evict:
  assumes "content_upto tr a b" "evict a = Inr a1"
  shows "\<exists>b1. evict b = Inr b1 \<and> content_upto tr a1 b1 \<and> Persistent b1 = Persistent b"
proof (cases "Capacity a \<le> int (length (LRU_deque a)) \<and> LRU_deque a \<noteq> []")
  case True
  then obtain e m where e: "elems a (last (LRU_deque a)) = Some e"
    "map_delete (Cache a) (key e) = Inr m"
    using assms(2) by (auto simp: evict_def Back_def split: option.splits sum.splits)
  from content_upto_elems(2) [OF assms(1) e(1)] obtain e' where
    e': "elems b (last (LRU_deque a)) = Some e'" "key e' = key e" by blast
  show ?thesis
    using assms True e e'
    by (auto simp: evict_def Back_def content_upto_def)
next
  case False
  have eq: "Capacity b = Capacity a" "LRU_deque b = LRU_deque a"
    using assms(1) by (simp_all add: content_upto_def)
  have "a1 = a" using assms(2) False by (auto simp: evict_def Back_def split: if_splits)
  moreover have "evict b = Inr b" using False eq by (auto simp: evict_def Back_def)
  ultimately show ?thesis using assms(1) by simp
qed

lemma sim_Set:
  assumes "content_upto tr a b" "\<not> Persistent a" "\<not> Persistent b"
    and "Set J a fsa na k v ta = Inr (ok, a1, fsa1)"
  shows "\<exists>b1. Set J b fsb nb k (tr v) tb = Inr (ok, b1, fsb) \<and> content_upto tr a1 b1
           \<and> \<not> Persistent b1 \<and> \<not> Persistent a1 \<and> fsa1 = fsa \<and> LogPath a1 = LogPath a"
proof (cases "ValidateKey k")
  case (Some err)
  then show ?thesis using assms by (auto simp: Set_def)
next
  case None
  have c: "Cache b = Cache a" using assms(1) by (simp add: content_upto_def)
  obtain x where mi: "map_index (Cache a) k = Inr x"
    using assms(4) None by (auto simp: Set_def split: sum.splits)
  show ?thesis
  proof (cases x)
    case (Some r)
    then obtain e where e: "elems a r = Some e"
      using assms(4) None mi by (auto simp: Set_def split: option.splits)
    from content_upto_elems(2) [OF assms(1) e] obtain e' where
      e': "elems b r = Some e'" "key e' = key e" "val e' = tr (val e)" by blast
    show ?thesis
      using assms None Some mi e e' c
      by (auto simp: Set_def Let_def persist_off content_upto_def)
  next
    case N: None
    then obtain a0 where a0: "evict a = Inr a0"
      using assms(4) None mi by (auto simp: Set_def split: sum.splits)
    from sim_evict [OF assms(1) a0] obtain b0 where
      b0: "evict b = Inr b0" "content_upto tr a0 b0" "Persistent b0 = Persistent b" by blast
    have pa: "Persistent a0 = Persistent a" "LogPath a0 = LogPath a"
      using a0 by (auto simp: evict_def split: if_splits option.splits sum.splits)
    obtain m where m: "map_assign (Cache a0) k (next_ref a0) = Inr m"
      using assms(4) None mi N a0 by (auto simp: Set_def Let_def split: sum.splits)
    show ?thesis
      using assms(2,3,4) None N mi c a0 b0 pa m
      by (auto simp: Set_def Let_def persist_off content_upto_def)
  qed
qed

lemma sim_Delete:
  assumes "content_upto tr a b" "\<not> Persistent a" "\<not> Persistent b"
    and "Delete J a fsa k = Inr (ok, a1, fsa1)"
  shows "\<exists>b1. Delete J b fsb k = Inr (ok, b1, fsb) \<and> content_upto tr a1 b1
           \<and> \<not> Persistent b1 \<and> \<not> Persistent a1 \<and> fsa1 = fsa \<and> LogPath a1 = LogPath a"
  using assms
  by (auto simp: Delete_def Let_def persist_off content_upto_def
      split: option.splits sum.splits)

section \<open>Reachable states\<close>

lemma flag_off_id: "\<not> Persistent kv \<Longrightarrow> kv\<lparr>Persistent := False\<rparr> = kv"
  by (cases kv) simp

lemma Set_Inr_hashable:
  assumes "Set J kv fs now k v ttl = Inr res" "ValidateKey k = None"
  shows "hashable k"
  using assms by (auto simp: Set_def map_index_def split: if_splits)

lemma Delete_Inr_hashable:
  assumes "Delete J kv fs k = Inr res" "ValidateKey k = None"
  shows "hashable k"
  using assms by (auto simp: Delete_def map_index_def split: if_splits)

lemma Set_Inr_str:
  assumes "Set J kv fs now k v ttl = Inr res" "Persistent kv" "ValidateKey k = None"
  shows "is_str k"
proof (rule ccontr)
  assume n: "\<not> is_str k"
  have "\<And>kv'. Persistent kv' \<Longrightarrow> persist J kv' fs ''SET'' k v ttl = Inl InterfaceConversion"
    using n by (simp add: persist_cases)
  then show False
    using assms
    by (auto simp: Set_def Let_def evict_def split: option.splits sum.splits if_splits)
qed

lemma Set_flagged_wf:
  assumes "wf (kv\<lparr>Persistent := p\<rparr>)" "\<not> Persistent kv" "is_str k"
  shows "\<exists>ok kv'. Set J kv fs now k v ttl = Inr (ok, kv', fs)
           \<and> wf (kv'\<lparr>Persistent := p\<rparr>) \<and> \<not> Persistent kv'"
proof -
  let ?kp = "kv\<lparr>Persistent := p\<rparr>"
  have "ValidateKey k = None \<longrightarrow> hashable k \<and> (Persistent ?kp \<longrightarrow> is_str k)"
    using assms(3) is_str_props by simp
  from Set_wf [OF assms(1) this, of J fs now v ttl] obtain ok kvP fsP where
    P: "Set J ?kp fs now k v ttl = Inr (ok, kvP, fsP)" "wf kvP" by blast
  have off: "?kp\<lparr>Persistent := False\<rparr> = kv" using assms(2) by (cases kv) simp
  obtain okN kvN fsN where N: "Set J kv fs now k v ttl = Inr (okN, kvN, fsN)"
    using P(1) off by (subst (asm) Set_decompose) (auto split: sum.splits)
  have sc: "content_upto (\<lambda>v. v) kv kv" by (simp add: content_upto_def)
  from sim_Set [OF sc assms(2) assms(2) N, of fs now ttl] have
    n: "\<not> Persistent kvN" "fsN = fs" by auto
  have "wf (kvN\<lparr>Persistent := p\<rparr>)"
  proof (cases okN)
    case True
    then have p: "persist J (kvN\<lparr>Persistent := p\<rparr>) fs ''SET'' k v ttl = Inr (kvP, fsP)"
      using P(1) N off by (subst (asm) Set_decompose) (auto split: sum.splits)
    show ?thesis
      by (rule frame_wf [OF P(2)]) (simp_all add: persist_frame [OF p])
  next
    case False
    then have "kvP = ?kp"
      using P(1) N off by (subst (asm) Set_decompose) (auto split: sum.splits)
    moreover have "kvN = kv"
      using N False
      by (auto simp: Set_def Let_def persist_def split: option.splits sum.splits if_splits)
    ultimately show ?thesis using P(2) by simp
  qed
  then show ?thesis using N n by blast
qed

lemma Delete_flagged_wf:
  assumes "wf (kv\<lparr>Persistent := p\<rparr>)" "\<not> Persistent kv" "is_str k"
  shows "\<exists>ok kv'. Delete J kv fs k = Inr (ok, kv', fs)
           \<and> wf (kv'\<lparr>Persistent := p\<rparr>) \<and> \<not> Persistent kv'"
proof -
  let ?kp = "kv\<lparr>Persistent := p\<rparr>"
  have k: "hashable k" "k \<noteq> KNaN" "ValidateKey k = None" using is_str_props [OF assms(3)] by auto
  show ?thesis
  proof (cases "entries (Cache kv) k")
    case None
    then have "Delete J kv fs k = Inr (False, kv, fs)"
      using k by (simp add: Delete_def map_index_def)
    then show ?thesis using assms by auto
  next
    case (Some r)
    have c: "entries (Cache ?kp) k = Some r" using Some by simp
    from wf_lookup [OF assms(1) c] obtain e where
      e: "r \<in> set (LRU_deque ?kp)" "elems ?kp r = Some e" "key e = k" by blast
    let ?m = "(Cache kv)\<lparr>entries := (entries (Cache kv))(k := None)\<rparr>"
    let ?k1 = "kv\<lparr>LRU_deque := Remove (LRU_deque kv) r, Cache := ?m\<rparr>"
    have "wf (?k1\<lparr>Persistent := p\<rparr>)"
      by (rule wf_remove [OF assms(1) e(1,2)]) (simp_all add: Remove_def e(3) map_delete_def k)
    moreover have "Delete J kv fs k = Inr (True, ?k1, fs)"
      using Some k assms(2) by (simp add: Delete_def Let_def persist_off map_index_def map_delete_def)
    ultimately show ?thesis using assms(2) by auto
  qed
qed

lemma replay_wf:
  assumes "wf (kv\<lparr>Persistent := p\<rparr>)" "\<not> Persistent kv"
  shows "\<exists>kv'. replay J clock i ls kv fs = Inr (kv', fs)
           \<and> wf (kv'\<lparr>Persistent := p\<rparr>) \<and> \<not> Persistent kv'"
  using assms
proof (induction ls arbitrary: i kv)
  case Nil
  then show ?case by simp
next
  case (Cons l ls)
  show ?case
  proof (cases "Unmarshal J l")
    case None
    then show ?thesis using Cons.IH [OF Cons.prems] by simp
  next
    case (Some e)
    consider (set) "Op e = ''SET''" | (del) "Op e \<noteq> ''SET''" "Op e = ''DELETE''"
      | (other) "Op e \<noteq> ''SET''" "Op e \<noteq> ''DELETE''" by blast
    then show ?thesis
    proof cases
      case set
      have "is_str (KStr (Key e))" by simp
      from Set_flagged_wf [OF Cons.prems this] obtain ok kv1 where
        s: "Set J kv fs (clock i) (KStr (Key e)) (Value e)
              (if 0 <s TTLms e then Some (TTLms e * Millisecond) else None) = Inr (ok, kv1, fs)"
          "wf (kv1\<lparr>Persistent := p\<rparr>)" "\<not> Persistent kv1"
        by blast
      show ?thesis using Cons.IH [OF s(2,3)] s(1) Some set by (simp add: Let_def)
    next
      case del
      have "is_str (KStr (Key e))" by simp
      from Delete_flagged_wf [OF Cons.prems this] obtain ok kv1 where
        s: "Delete J kv fs (KStr (Key e)) = Inr (ok, kv1, fs)"
          "wf (kv1\<lparr>Persistent := p\<rparr>)" "\<not> Persistent kv1"
        by blast
      show ?thesis using Cons.IH [OF s(2,3)] s(1) Some del by simp
    next
      case other
      then show ?thesis using Cons.IH [OF Cons.prems] Some by simp
    qed
  qed
qed

lemma ReplayLog_wf:
  assumes "wf kv"
  shows "\<exists>kv'. ReplayLog J kv fs clock filename =
             Inr (case files fs filename of None \<Rightarrow> Some OpenError
                  | Some content \<Rightarrow> snd (ScanLines J content), kv', fs)
           \<and> wf kv' \<and> Persistent kv' = Persistent kv"
proof (cases "files fs filename")
  case None
  then show ?thesis using assms by (simp add: ReplayLog_def)
next
  case (Some content)
  obtain ls err where sc: "ScanLines J content = (ls, err)" by (cases "ScanLines J content")
  let ?k0 = "kv\<lparr>Persistent := False\<rparr>"
  have "wf (?k0\<lparr>Persistent := Persistent kv\<rparr>)" using assms by simp
  from replay_wf [OF this, of J clock 0 ls fs] obtain kv1 where
    r: "replay J clock 0 ls ?k0 fs = Inr (kv1, fs)" "wf (kv1\<lparr>Persistent := Persistent kv\<rparr>)"
    by auto
  show ?thesis using Some sc r by (simp add: ReplayLog_def Let_def)
qed

lemma step_wf:
  assumes "wf kv" "step J c kv fs = Inr (kv', fs')"
  shows "wf kv'"
proof (cases c)
  case (CGet k now)
  then show ?thesis using Get_wf [OF assms(1), of now k] assms(2) by (auto split: sum.splits)
next
  case (CSet k v ttl now)
  obtain res where res: "Set J kv fs now k v ttl = Inr res"
    using assms(2) CSet by (auto split: sum.splits)
  have "ValidateKey k = None \<longrightarrow> hashable k \<and> (Persistent kv \<longrightarrow> is_str k)"
    using Set_Inr_str [OF res] Set_Inr_hashable [OF res] by auto
  from Set_wf [OF assms(1) this, of J fs now v ttl] show ?thesis
    using assms(2) CSet by auto
next
  case (CDelete k)
  obtain res where res: "Delete J kv fs k = Inr res"
    using assms(2) CDelete by (auto split: sum.splits)
  have "ValidateKey k = None \<longrightarrow> hashable k"
    using Delete_Inr_hashable [OF res] by auto
  from Delete_wf [OF assms(1) this, of J fs] show ?thesis
    using assms(2) CDelete by auto
next
  case (CReplay filename clock)
  then show ?thesis using ReplayLog_wf [OF assms(1), of J fs clock filename] assms(2) by auto
qed

lemma run_wf:
  assumes "wf kv" "run J cs kv fs = Inr (kv', fs')"
  shows "wf kv'"
  using assms
proof (induction cs arbitrary: kv fs)
  case Nil
  then show ?case by simp
next
  case (Cons c cs)
  then obtain kv1 fs1 where s: "step J c kv fs = Inr (kv1, fs1)" "run J cs kv1 fs1 = Inr (kv', fs')"
    by (auto split: sum.splits)
  show ?case using Cons.IH [OF step_wf [OF Cons.prems(1) s(1)] s(2)] .
qed

lemma reachable_wf:
  "run J cs (NewOpenCache c p path) fs = Inr (kv, fs') \<Longrightarrow> wf kv"
  using run_wf [OF wf_NewOpenCache] by blast

lemma Set_mem:
  assumes "wf kv" "\<not> Persistent kv" "is_str k"
  shows "\<exists>kv'. Set J kv fs now k v ttl = Inr (True, kv', fs) \<and> wf kv' \<and> \<not> Persistent kv'
           \<and> LogPath kv' = LogPath kv \<and> Capacity kv' = Capacity kv
           \<and> stored kv' k = Some v
           \<and> expiry kv' k = Some (case ttl of Some d \<Rightarrow> Some (Add now d) | None \<Rightarrow> None)"
proof -
  have k: "hashable k" "k \<noteq> KNaN" "ValidateKey k = None" using is_str_props [OF assms(3)] by auto
  have "ValidateKey k = None \<longrightarrow> hashable k \<and> (Persistent kv \<longrightarrow> is_str k)"
    using assms(3) k by simp
  from Set_wf [OF assms(1) this, of J fs now v ttl] obtain ok kv' fs' where
    s: "Set J kv fs now k v ttl = Inr (ok, kv', fs')" "wf kv'" by blast
  show ?thesis
  proof (cases "entries (Cache kv) k")
    case (Some r)
    then show ?thesis
      using s assms(2) k
      by (auto simp: Set_def Let_def persist_off stored_def expiry_def map_index_def
          split: option.splits)
  next
    case None
    obtain kv1 where kv1: "evict kv = Inr kv1"
      using evict_wf [OF assms(1)] by blast
    then have f: "Persistent kv1 = Persistent kv" "LogPath kv1 = LogPath kv"
      "Capacity kv1 = Capacity kv"
      by (auto simp: evict_def split: if_splits option.splits sum.splits)
    show ?thesis
      using s assms(2) k None kv1 f
      by (auto simp: Set_def Let_def persist_off stored_def expiry_def map_index_def
          map_assign_def)
  qed
qed

section \<open>Rejected keys, the type assertion, lazy expiry\<close>

text \<open>
  C9. A key that the validator rejects (the nil interface, or a value of a type that is
  not comparable) makes \<open>Get\<close> answer not-found and \<open>Set\<close> and \<open>Delete\<close> answer false;
  the cache and the file system are returned as they were, and the result carries no error.
\<close>

theorem invalid_key_is_noop:
  assumes "k = KNil \<or> \<not> Comparable k"
  shows "ValidateKey k \<noteq> None
         \<and> Get kv now k = Inr ((None, False), kv)
         \<and> Set J kv fs now k v ttl = Inr (False, kv, fs)
         \<and> Delete J kv fs k = Inr (False, kv, fs)"
  using assms by (auto simp: ValidateKey_def Get_def Set_def Delete_def)

theorem invalid_key_is_noop_witness:
  "\<not> Comparable (KSlice [1])
   \<and> Get fresh_persistent 5 (KSlice [1]) = Inr ((None, False), fresh_persistent)
   \<and> Set demo_lib fresh_persistent fs_empty 5 (KSlice [1]) (Some 7) None
        = Inr (False, fresh_persistent, fs_empty)
   \<and> Delete demo_lib fresh_persistent fs_empty (KSlice [1])
        = Inr (False, fresh_persistent, fs_empty)
   \<and> Get fresh_persistent 5 KNil = Inr ((None, False), fresh_persistent)
   \<and> Set demo_lib fresh_persistent fs_empty 5 KNil (Some 7) None
        = Inr (False, fresh_persistent, fs_empty)
   \<and> Delete demo_lib fresh_persistent fs_empty KNil
        = Inr (False, fresh_persistent, fs_empty)"
  using invalid_key_is_noop [of "KSlice [1]" fresh_persistent 5 demo_lib fs_empty "Some 7" None]
    invalid_key_is_noop [of KNil fresh_persistent 5 demo_lib fs_empty "Some 7" None]
  by simp

text \<open>
  C2. No public operation panics. The code does: on a persistent cache, \<open>Set\<close> with the
  key \<^verbatim>\<open>1\<close> of type \<^verbatim>\<open>int\<close>, which the validator accepts, reaches the type assertion
  \<^verbatim>\<open>key.(string)\<close> of \<open>makeLogEntry\<close> and panics.
\<close>

theorem Set_int_key_on_persistent_cache_panics:
  "ValidateKey (KInt 1) = None
   \<and> Set J (NewOpenCache 2 True ''cache.aof'') fs now (KInt 1) v ttl = Inl InterfaceConversion"
  by (simp add: ValidateKey_def Set_def NewOpenCache_def evict_def Let_def persist_def
      makeLogEntry_def map_index_def map_assign_def map_make_def)

text \<open>
  C3. In a reachable state, \<open>Get\<close> on a present key whose expiry lies before \<open>now\<close>
  deletes the key from the map, removes its element from the list and answers not-found;
  on a present key without expiry, or with an expiry that \<open>now\<close> has not passed, it
  answers the stored value with \<open>True\<close> and moves the element to the front.
\<close>

theorem Get_lazy_expiration:
  assumes "run J cs (NewOpenCache c p path) fs0 = Inr (kv, fs)"
    and "entries (Cache kv) k = Some r" "elems kv r = Some e"
  shows "Get kv now k =
           (if (case expiresAt e of Some exp \<Rightarrow> exp < now | None \<Rightarrow> False)
            then Inr ((None, False),
                      kv\<lparr>Cache := (Cache kv)\<lparr>entries := (entries (Cache kv))(k := None)\<rparr>,
                         LRU_deque := remove1 r (LRU_deque kv)\<rparr>)
            else Inr ((val e, True), kv\<lparr>LRU_deque := r # remove1 r (LRU_deque kv)\<rparr>))
         \<and> r \<in> set (LRU_deque kv) \<and> r \<notin> set (remove1 r (LRU_deque kv))"
proof -
  have w: "wf kv" using reachable_wf [OF assms(1)] .
  have c: "hashable k" "k \<noteq> KNaN"
    using wf_lookup(4,5) [OF w assms(2)] by simp_all
  have mi: "map_index (Cache kv) k = Inr (Some r)"
    using assms(2) c by (simp add: map_index_Some)
  have v: "ValidateKey k = None" using wf_lookup(3) [OF w assms(2)] .
  have r: "r \<in> set (LRU_deque kv)" "key e = k"
    using wf_lookup [OF w assms(2)] assms(3) by auto
  have d: "distinct (LRU_deque kv)" using w by (simp add: wf_def)
  show ?thesis
    using v r d c mi assms(3)
    by (cases "expiresAt e")
      (simp_all add: Get_def Remove_def MoveToFront_def After_def map_delete_def)
qed

theorem Get_lazy_expiration_witness:
  "\<exists>kv fs.
     run demo_lib [CSet (KStr ''a'') (Some 1) (Some 5000) 100, CSet (KStr ''b'') (Some 2) None 200]
       fresh fs_empty = Inr (kv, fs)
     \<and> entries (Cache kv) (KStr ''a'') = Some 0
     \<and> elems kv 0 = Some \<lparr>key = KStr ''a'', val = Some 1, expiresAt = Some 5100\<rparr>
     \<and> Get kv 6000 (KStr ''a'')
         = Inr ((None, False),
                kv\<lparr>Cache := (Cache kv)\<lparr>entries := (entries (Cache kv))(KStr ''a'' := None)\<rparr>,
                   LRU_deque := [1]\<rparr>)
     \<and> Get kv 5100 (KStr ''a'') = Inr ((Some 1, True), kv\<lparr>LRU_deque := [0, 1]\<rparr>)
     \<and> entries (Cache kv) (KStr ''b'') = Some 1
     \<and> Get kv 6000 (KStr ''b'') = Inr ((Some 2, True), kv\<lparr>LRU_deque := [1, 0]\<rparr>)"
proof -
  let ?cs = "[CSet (KStr ''a'') (Some 1) (Some 5000) 100, CSet (KStr ''b'') (Some 2) None 200]"
  obtain kv fs where r: "run demo_lib ?cs fresh fs_empty = Inr (kv, fs)"
    and a: "entries (Cache kv) (KStr ''a'') = Some 0"
      "elems kv 0 = Some \<lparr>key = KStr ''a'', val = Some 1, expiresAt = Some 5100\<rparr>"
    and b: "entries (Cache kv) (KStr ''b'') = Some 1"
      "elems kv 1 = Some \<lparr>key = KStr ''b'', val = Some 2, expiresAt = None\<rparr>"
    and l: "LRU_deque kv = [1, 0]"
    by (simp add: fresh_def NewOpenCache_def Set_def ValidateKey_def evict_def Let_def
        persist_def Add_def map_index_def map_assign_def map_make_def)
  have r': "run demo_lib ?cs (NewOpenCache 2 False ''log.aof'') fs_empty = Inr (kv, fs)"
    using r by (simp add: fresh_def)
  show ?thesis
    using Get_lazy_expiration [OF r' a, of 6000] Get_lazy_expiration [OF r' a, of 5100]
      Get_lazy_expiration [OF r' b, of 6000] r a b l
    by (intro exI [of _ kv] exI [of _ fs]) simp
qed

section \<open>Updates in place\<close>

text \<open>
  C7. In a reachable state, \<open>Set\<close> on a key that is present returns true, writes the new
  value into the entry, sets the expiry to \<open>now\<close> plus the TTL when a TTL is given and
  clears it otherwise, and moves the element to the front; the map, the set of elements of
  the list, its length and \<open>Len\<close> are unchanged, whatever the capacity.
\<close>

theorem Set_updates_in_place:
  assumes "run J cs (NewOpenCache c p path) fs0 = Inr (kv, fs00)"
    and "entries (Cache kv) k = Some r"
  shows "\<exists>e kv' fs'.
           elems kv r = Some e
           \<and> Set J kv fs now k v ttl = Inr (True, kv', fs')
           \<and> Cache kv' = Cache kv
           \<and> elems kv' = (elems kv)(r \<mapsto> e\<lparr>val := v,
                 expiresAt := (case ttl of Some d \<Rightarrow> Some (now + sint d) | None \<Rightarrow> None)\<rparr>)
           \<and> LRU_deque kv' = r # remove1 r (LRU_deque kv)
           \<and> set (LRU_deque kv') = set (LRU_deque kv)
           \<and> length (LRU_deque kv') = length (LRU_deque kv)
           \<and> Len kv' = Len kv"
proof -
  have w: "wf kv" using reachable_wf [OF assms(1)] .
  have c: "entries (Cache kv) k = Some r" using assms(2) .
  have mi: "map_index (Cache kv) k = Inr (Some r)"
    using c wf_lookup(4,5) [OF w c] by (simp add: map_index_Some)
  from wf_lookup [OF w c] obtain e where
    e: "r \<in> set (LRU_deque kv)" "elems kv r = Some e" "key e = k"
    and v: "ValidateKey k = None" and s: "Persistent kv \<longrightarrow> is_str k"
    by blast
  have d: "distinct (LRU_deque kv)" using w by (simp add: wf_def)
  define e' where "e' = e\<lparr>val := v,
      expiresAt := (case ttl of Some d \<Rightarrow> Some (Add now d) | None \<Rightarrow> None)\<rparr>"
  define kv1 where "kv1 = kv\<lparr>elems := (elems kv)(r \<mapsto> e'),
      LRU_deque := MoveToFront (LRU_deque kv) r\<rparr>"
  have "Persistent kv1 \<longrightarrow> is_str k" using s by (simp add: kv1_def)
  from persist_returns [OF this] obtain kv2 fs2 where
    p: "persist J kv1 fs ''SET'' k v ttl = Inr (kv2, fs2)" by blast
  have S: "Set J kv fs now k v ttl = Inr (True, kv2, fs2)"
    using v mi e p by (simp add: Set_def Let_def kv1_def e'_def)
  have f: "Cache kv2 = Cache kv" "elems kv2 = (elems kv)(r \<mapsto> e')"
    "LRU_deque kv2 = r # remove1 r (LRU_deque kv)"
    using persist_frame [OF p] e(1) by (simp_all add: kv1_def MoveToFront_def)
  have e'': "e' = e\<lparr>val := v,
      expiresAt := (case ttl of Some d \<Rightarrow> Some (now + sint d) | None \<Rightarrow> None)\<rparr>"
    by (cases ttl) (simp_all add: e'_def Add_def)
  have st: "set (LRU_deque kv2) = set (LRU_deque kv)"
    using f(3) e(1) d by auto
  have ln: "length (LRU_deque kv2) = length (LRU_deque kv)"
    using f(3) e(1) by (simp add: length_remove1) (metis Suc_pred length_pos_if_in_set)
  show ?thesis
    using e(2) S f e'' st ln by (auto simp: Len_def)
qed

theorem Set_updates_in_place_witness:
  "\<exists>kv fs kv' fs'.
     run demo_lib [CSet (KStr ''a'') (Some 1) (Some 5000) 100, CSet (KStr ''b'') (Some 2) None 200]
       fresh_persistent fs_empty = Inr (kv, fs)
     \<and> entries (Cache kv) (KStr ''a'') = Some 0 \<and> Len kv = Capacity kv
     \<and> elems kv 0 = Some \<lparr>key = KStr ''a'', val = Some 1, expiresAt = Some 5100\<rparr>
     \<and> Set demo_lib kv fs 300 (KStr ''a'') (Some 9) None = Inr (True, kv', fs')
     \<and> Cache kv' = Cache kv
     \<and> elems kv' = (elems kv)(0 \<mapsto> \<lparr>key = KStr ''a'', val = Some 9, expiresAt = None\<rparr>)
     \<and> LRU_deque kv = [1, 0] \<and> LRU_deque kv' = [0, 1]
     \<and> Len kv' = Len kv"
proof -
  let ?cs = "[CSet (KStr ''a'') (Some 1) (Some 5000) 100, CSet (KStr ''b'') (Some 2) None 200]"
  obtain kv :: "nat OpenCache" and fs where
    r: "run demo_lib ?cs fresh_persistent fs_empty = Inr (kv, fs)"
    and a: "entries (Cache kv) (KStr ''a'') = Some 0"
      "elems kv 0 = Some \<lparr>key = KStr ''a'', val = Some 1, expiresAt = Some 5100\<rparr>"
    and l: "LRU_deque kv = [1, 0]" "Capacity kv = 2"
      "dom (entries (Cache kv)) = {KStr ''a'', KStr ''b''}" "nan_entries (Cache kv) = []"
    by (simp add: fresh_persistent_def NewOpenCache_def Set_def ValidateKey_def evict_def Let_def
        persist_def makeLogEntry_def AppendToLog_def Add_def fs_empty_def demo_lib_def
        Milliseconds_def insert_commute map_index_def map_assign_def map_make_def)
  have r': "run demo_lib ?cs (NewOpenCache 2 True ''log.aof'') fs_empty = Inr (kv, fs)"
    using r by (simp add: fresh_persistent_def)
  from Set_updates_in_place [OF r' a(1), of fs 300 "Some 9" None]
  obtain kv' fs' where
    "Set demo_lib kv fs 300 (KStr ''a'') (Some 9) None = Inr (True, kv', fs')"
    "Cache kv' = Cache kv"
    "elems kv' = (elems kv)(0 \<mapsto> \<lparr>key = KStr ''a'', val = Some 1, expiresAt = Some 5100\<rparr>
        \<lparr>val := Some 9, expiresAt := None\<rparr>)"
    "LRU_deque kv' = 0 # remove1 0 (LRU_deque kv)" "Len kv' = Len kv"
    using a(2) by auto
  then show ?thesis
    using r a l by (intro exI [of _ kv] exI [of _ fs] exI [of _ kv'] exI [of _ fs'])
      (simp add: Len_def map_len_def)
qed

section \<open>Append failures and the persistence flag\<close>

lemma AppendToLog_writable:
  "eff_path kv \<notin> unwritable fs \<Longrightarrow>
     AppendToLog J kv fs e =
       (kv\<lparr>LogPath := eff_path kv\<rparr>,
        fs\<lparr>files := (files fs)(eff_path kv \<mapsto>
              log_lines fs (eff_path kv) @ [case Marshal J e of Some d \<Rightarrow> d | None \<Rightarrow> []])\<rparr>)"
  by (cases "LogPath kv = []") (simp_all add: AppendToLog_def eff_path_def log_lines_def Let_def)

lemma AppendToLog_unwritable:
  "eff_path kv \<in> unwritable fs \<Longrightarrow> AppendToLog J kv fs e = (kv\<lparr>LogPath := eff_path kv\<rparr>, fs)"
  by (cases "LogPath kv = []") (simp_all add: AppendToLog_def eff_path_def Let_def)

lemma replay_append:
  "replay J clock i (xs @ ys) kv fs =
     (case replay J clock i xs kv fs of
        Inl p \<Rightarrow> Inl p
      | Inr (kv', fs') \<Rightarrow> replay J clock (i + length xs) ys kv' fs')"
  by (induction xs arbitrary: i kv fs) (auto simp: Let_def split: option.splits sum.splits)

lemma persist_logged:
  assumes "persist J a fs op k v ttl = Inr (a1, fs1)" "Persistent a"
    and "eff_path a \<notin> unwritable fs"
  shows "\<exists>e. makeLogEntry op k v ttl = Inr e \<and> is_str k
           \<and> a1 = a\<lparr>LogPath := eff_path a\<rparr>
           \<and> fs1 = fs\<lparr>files := (files fs)(eff_path a \<mapsto>
                log_lines fs (eff_path a) @ [case Marshal J e of Some d \<Rightarrow> d | None \<Rightarrow> []])\<rparr>"
  using assms by (cases k) (auto simp: persist_cases AppendToLog_writable makeLogEntry_def is_str_def)

lemma persist_unwritable:
  assumes "Persistent kv" "eff_path kv \<in> unwritable fs"
  shows "persist J kv fs op (KStr s) v ttl = Inr (kv\<lparr>LogPath := eff_path kv\<rparr>, fs)"
  using assms by (simp add: persist_cases AppendToLog_unwritable)

text \<open>
  C6. On a persistent cache in a reachable state whose log cannot be opened for appending,
  \<open>Set\<close> with a string key returns true and \<open>Delete\<close> with a string key returns whether
  the key was present; the file system is unchanged, and the map, the list and the entries
  are those that the same call leaves on the cache with persistence off. No error is
  part of the result.
\<close>

theorem append_failure_is_swallowed:
  assumes "run J cs (NewOpenCache c p path) fs0 = Inr (kv, fs00)"
    and "Persistent kv" and "eff_path kv \<in> unwritable fs"
  shows "(\<exists>kv' kvN.
            Set J kv fs now (KStr s) v ttl = Inr (True, kv', fs)
            \<and> stored kv' (KStr s) = Some v
            \<and> Set J (kv\<lparr>Persistent := False\<rparr>) fs now (KStr s) v ttl = Inr (True, kvN, fs)
            \<and> Cache kv' = Cache kvN \<and> LRU_deque kv' = LRU_deque kvN \<and> elems kv' = elems kvN)
         \<and> (\<exists>kv' kvN.
            Delete J kv fs (KStr s) = Inr (entries (Cache kv) (KStr s) \<noteq> None, kv', fs)
            \<and> entries (Cache kv') (KStr s) = None
            \<and> Delete J (kv\<lparr>Persistent := False\<rparr>) fs (KStr s)
                 = Inr (entries (Cache kv) (KStr s) \<noteq> None, kvN, fs)
            \<and> Cache kv' = Cache kvN \<and> LRU_deque kv' = LRU_deque kvN \<and> elems kv' = elems kvN)"
proof
  let ?k0 = "kv\<lparr>Persistent := False\<rparr>"
  have w: "wf kv" using reachable_wf [OF assms(1)] .
  have w0: "wf ?k0" by (rule frame_wf [OF w]) simp_all
  from Set_mem [OF w0, of "KStr s" J fs now v ttl] obtain kvN where
    N: "Set J ?k0 fs now (KStr s) v ttl = Inr (True, kvN, fs)" "LogPath kvN = LogPath kv"
       "stored kvN (KStr s) = Some v"
    by auto
  let ?kP = "kvN\<lparr>Persistent := True\<rparr>"
  have "eff_path ?kP \<in> unwritable fs" using assms(3) N(2) by (auto simp: eff_path_def split: if_splits)
  then have p: "persist J ?kP fs ''SET'' (KStr s) v ttl = Inr (?kP\<lparr>LogPath := eff_path ?kP\<rparr>, fs)"
    by (intro persist_unwritable) simp_all
  have S: "Set J kv fs now (KStr s) v ttl = Inr (True, ?kP\<lparr>LogPath := eff_path ?kP\<rparr>, fs)"
    using N(1) p assms(2) by (subst Set_decompose) simp
  have "stored (?kP\<lparr>LogPath := eff_path ?kP\<rparr>) (KStr s) = Some v"
    using N(3) by (simp add: stored_def split: option.splits)
  then show "\<exists>kv' kvN.
            Set J kv fs now (KStr s) v ttl = Inr (True, kv', fs)
            \<and> stored kv' (KStr s) = Some v
            \<and> Set J (kv\<lparr>Persistent := False\<rparr>) fs now (KStr s) v ttl = Inr (True, kvN, fs)
            \<and> Cache kv' = Cache kvN \<and> LRU_deque kv' = LRU_deque kvN \<and> elems kv' = elems kvN"
    using S N(1) by (intro exI [of _ "?kP\<lparr>LogPath := eff_path ?kP\<rparr>"] exI [of _ kvN]) simp
next
  let ?k0 = "kv\<lparr>Persistent := False\<rparr>"
  show "\<exists>kv' kvN.
            Delete J kv fs (KStr s) = Inr (entries (Cache kv) (KStr s) \<noteq> None, kv', fs)
            \<and> entries (Cache kv') (KStr s) = None
            \<and> Delete J (kv\<lparr>Persistent := False\<rparr>) fs (KStr s)
                 = Inr (entries (Cache kv) (KStr s) \<noteq> None, kvN, fs)
            \<and> Cache kv' = Cache kvN \<and> LRU_deque kv' = LRU_deque kvN \<and> elems kv' = elems kvN"
  proof (cases "entries (Cache kv) (KStr s)")
    case None
    then show ?thesis by (simp add: Delete_def map_index_def)
  next
    case (Some r)
    let ?kN = "kv\<lparr>Persistent := False, LRU_deque := Remove (LRU_deque kv) r,
                   Cache := (Cache kv)\<lparr>entries := (entries (Cache kv))(KStr s := None)\<rparr>\<rparr>"
    have N: "Delete J ?k0 fs (KStr s) = Inr (True, ?kN, fs)"
      using Some by (simp add: Delete_def Let_def persist_off map_index_def map_delete_def)
    let ?kP = "?kN\<lparr>Persistent := True\<rparr>"
    have "eff_path ?kP \<in> unwritable fs" using assms(3) by (auto simp: eff_path_def split: if_splits)
    then have p: "persist J ?kP fs ''DELETE'' (KStr s) None None
                    = Inr (?kP\<lparr>LogPath := eff_path ?kP\<rparr>, fs)"
      by (intro persist_unwritable) simp_all
    have D: "Delete J kv fs (KStr s) = Inr (True, ?kP\<lparr>LogPath := eff_path ?kP\<rparr>, fs)"
      using N p assms(2) by (subst Delete_decompose) simp
    show ?thesis
      using D N Some
      by (intro exI [of _ "?kP\<lparr>LogPath := eff_path ?kP\<rparr>"] exI [of _ ?kN]) simp
  qed
qed

theorem append_failure_is_swallowed_witness:
  "\<exists>kv kv' kv''.
     run demo_lib [CSet (KStr ''a'') (Some 1) None 100] fresh_persistent fs_readonly
       = Inr (kv, fs_readonly)
     \<and> Persistent kv \<and> eff_path kv \<in> unwritable fs_readonly
     \<and> Set demo_lib kv fs_readonly 200 (KStr ''b'') (Some 2) None = Inr (True, kv', fs_readonly)
     \<and> stored kv' (KStr ''b'') = Some (Some 2)
     \<and> Delete demo_lib kv fs_readonly (KStr ''a'') = Inr (True, kv'', fs_readonly)
     \<and> entries (Cache kv'') (KStr ''a'') = None"
proof -
  let ?cs = "[CSet (KStr ''a'') (Some 1) None 100]"
  obtain kv :: "nat OpenCache" where
    r: "run demo_lib ?cs fresh_persistent fs_readonly = Inr (kv, fs_readonly)"
    and a: "entries (Cache kv) (KStr ''a'') = Some 0" "Persistent kv" "LogPath kv = ''log.aof''"
    by (simp add: fresh_persistent_def NewOpenCache_def Set_def ValidateKey_def evict_def Let_def
        persist_def makeLogEntry_def AppendToLog_def fs_readonly_def
        map_index_def map_assign_def map_make_def)
  have r': "run demo_lib ?cs (NewOpenCache 2 True ''log.aof'') fs_readonly
              = Inr (kv, fs_readonly)"
    using r by (simp add: fresh_persistent_def)
  have u: "eff_path kv \<in> unwritable fs_readonly"
    using a(3) by (simp add: eff_path_def fs_readonly_def)
  show ?thesis
    using append_failure_is_swallowed [OF r' a(2) u, of 200 "''b''" "Some 2" None]
      append_failure_is_swallowed [OF r' a(2) u, of 200 "''a''" "Some 2" None]
      r a u
    by auto
qed

text \<open>
  C8. \<open>ReplayLog\<close> on a cache in a reachable state returns with the persistence flag it
  was called with, whether it returns the error of the open, the error of the scan or no
  error; it leaves the file system as it was, so no record is appended while it runs.
\<close>

theorem ReplayLog_restores_flag:
  assumes "run J cs (NewOpenCache c p path) fs0 = Inr (kv, fs00)"
  shows "\<exists>kv'. ReplayLog J kv fs clock filename =
             Inr (case files fs filename of None \<Rightarrow> Some OpenError
                  | Some content \<Rightarrow> snd (ScanLines J content), kv', fs)
           \<and> Persistent kv' = Persistent kv"
  using ReplayLog_wf [OF reachable_wf [OF assms], of J fs clock filename] by blast

theorem ReplayLog_restores_flag_witness:
  "\<exists>kv fs kv' kv''.
     run demo_lib [CSet (KStr ''a'') (Some 1) None 100, CSet (KStr ''b'') (Some 2) None 200]
       fresh_persistent fs_empty = Inr (kv, fs)
     \<and> Persistent kv
     \<and> files fs ''log.aof'' = Some [''SET a'', ''SET b'']
     \<and> ReplayLog demo_lib kv fs noon ''log.aof'' = Inr (None, kv', fs)
     \<and> Persistent kv'
     \<and> ReplayLog demo_lib kv fs noon ''missing.aof'' = Inr (Some OpenError, kv'', fs)
     \<and> Persistent kv''"
proof -
  let ?cs = "[CSet (KStr ''a'') (Some 1) None 100, CSet (KStr ''b'') (Some 2) None 200]"
  obtain kv :: "nat OpenCache" and fs where
    r: "run demo_lib ?cs fresh_persistent fs_empty = Inr (kv, fs)"
    and a: "Persistent kv" "files fs ''log.aof'' = Some [''SET a'', ''SET b'']"
      "files fs ''missing.aof'' = None"
    by (simp add: fresh_persistent_def NewOpenCache_def Set_def ValidateKey_def evict_def Let_def
        persist_def makeLogEntry_def AppendToLog_def fs_empty_def demo_lib_def
        map_index_def map_assign_def map_make_def)
  have r': "run demo_lib ?cs (NewOpenCache 2 True ''log.aof'') fs_empty = Inr (kv, fs)"
    using r by (simp add: fresh_persistent_def)
  show ?thesis
    using ReplayLog_restores_flag [OF r', of fs noon "''log.aof''"]
      ReplayLog_restores_flag [OF r', of fs noon "''missing.aof''"] r a
    by (auto simp: demo_lib_def)
qed

section \<open>Keys that the map cannot find again\<close>

text \<open>
  C5. The index map and the recency list have the same size, at most the capacity, and
  \<open>Len\<close> never exceeds the capacity. The code does not keep this: the validator accepts
  the \<^verbatim>\<open>float64\<close> key NaN, which no lookup and no delete of the map matches. On a cache of
  capacity 1, two \<open>Set\<close> calls with the key NaN both return; the second one evicts the
  element of the first from the list, but the delete leaves its map entry, and the
  assignment adds another: the map has two entries, the list one element, and \<open>Len\<close> is 2.
\<close>

theorem NaN_keys_break_size_invariant:
  "ValidateKey KNaN = None
   \<and> (\<exists>kv. run J [CSet KNaN v None t, CSet KNaN v' None t'] (NewOpenCache 1 False path) fs
              = Inr (kv, fs)
          \<and> map_len (Cache kv) = 2 \<and> length (LRU_deque kv) = 1 \<and> Capacity kv = 1
          \<and> Len kv = 2)"
  by (simp add: ValidateKey_def NewOpenCache_def Set_def evict_def Back_def Remove_def Let_def
      persist_def map_index_def map_assign_def map_delete_def map_make_def map_len_def Len_def)

text \<open>
  C4. After \<open>Set\<close> calls on \<open>C + 1\<close> distinct valid keys the first key is absent and the
  other \<open>C\<close> keys are present. The code does not keep this when one of the keys is NaN.
  With capacity 1, \<open>Set\<close> of NaN and then of \<^verbatim>\<open>"a"\<close> evicts the element of NaN from the
  list, but its map entry stays and \<open>Len\<close> is 2; \<open>Set\<close> of \<^verbatim>\<open>"a"\<close> and then of NaN leaves
  NaN in the list, but \<open>Get\<close> does not find it.
\<close>

theorem NaN_keys_break_LRU_law:
  "ValidateKey KNaN = None \<and> ValidateKey (KStr ''a'') = None
   \<and> (\<exists>kv. run J [CSet KNaN v None t, CSet (KStr ''a'') v' None t'] (NewOpenCache 1 False path) fs
              = Inr (kv, fs)
          \<and> deque_keys kv = [Some (KStr ''a'')]
          \<and> nan_entries (Cache kv) = [0] \<and> dom (entries (Cache kv)) = {KStr ''a''}
          \<and> Len kv = 2 \<and> Capacity kv = 1)
   \<and> (\<exists>kv. run J [CSet (KStr ''a'') v None t, CSet KNaN v' None t'] (NewOpenCache 1 False path) fs
              = Inr (kv, fs)
          \<and> deque_keys kv = [Some KNaN]
          \<and> Get kv now KNaN = Inr ((None, False), kv))"
  by (simp add: ValidateKey_def NewOpenCache_def Set_def Get_def evict_def Back_def Remove_def
      Let_def persist_def map_index_def map_assign_def map_delete_def map_make_def map_len_def
      Len_def deque_keys_def)

section \<open>TTLs on replay\<close>

lemma sint_Millisecond:
  assumes "0 < sint (T :: int64)" "sint T \<le> 9223372036854"
  shows "sint (T * Millisecond) = 1000000 * sint T"
proof -
  have m: "sint (1000000 :: int64) = 1000000" by simp
  have "sint (T * 1000000) = signed_take_bit 63 (sint T * 1000000)"
    using sint_word_ariths(3) [of T "1000000 :: int64"] m by simp
  also have "\<dots> = sint T * 1000000"
    by (rule signed_take_bit_int_eq_self) (use assms in simp_all)
  finally show ?thesis by (simp add: Millisecond_def)
qed

lemma Milliseconds_under_one:
  assumes "- 1000000 < sint d" "sint d < 1000000"
  shows "Milliseconds d = 0"
proof -
  have "\<bar>sint d\<bar> div 1000000 = 0" using assms by (simp add: div_pos_pos_trivial)
  then show ?thesis by (simp add: Milliseconds_def signed_divide_int_def)
qed

lemma stored_flag [simp]: "stored (kv\<lparr>Persistent := p\<rparr>) k = stored kv k"
  by (simp add: stored_def split: option.splits)

lemma expiry_flag [simp]: "expiry (kv\<lparr>Persistent := p\<rparr>) k = expiry kv k"
  by (simp add: expiry_def split: option.splits)

lemma replay_then_SET:
  assumes "wf (kv\<lparr>Persistent := p\<rparr>)" "\<not> Persistent kv"
    and "Unmarshal J l = Some e" "Op e = ''SET''"
  shows "\<exists>kv'. replay J clock 0 (ls @ [l]) kv fs = Inr (kv', fs)
           \<and> wf (kv'\<lparr>Persistent := p\<rparr>) \<and> \<not> Persistent kv'
           \<and> stored kv' (KStr (Key e)) = Some (Value e)
           \<and> expiry kv' (KStr (Key e)) =
               Some (if 0 <s TTLms e
                     then Some (Add (clock (length ls)) (TTLms e * Millisecond)) else None)"
proof -
  from replay_wf [OF assms(1,2), of J clock 0 ls fs] obtain kv1 where
    r: "replay J clock 0 ls kv fs = Inr (kv1, fs)" "wf (kv1\<lparr>Persistent := p\<rparr>)"
       "\<not> Persistent kv1"
    by blast
  have w1: "wf kv1" by (rule frame_wf [OF r(2)]) (use r(3) in simp_all)
  have v: "is_str (KStr (Key e))" by simp
  from Set_mem [OF w1 r(3) v, of J fs "clock (length ls)" "Value e"
      "if 0 <s TTLms e then Some (TTLms e * Millisecond) else None"]
  obtain kv2 where
    s: "Set J kv1 fs (clock (length ls)) (KStr (Key e)) (Value e)
          (if 0 <s TTLms e then Some (TTLms e * Millisecond) else None) = Inr (True, kv2, fs)"
       "wf kv2" "\<not> Persistent kv2"
       "stored kv2 (KStr (Key e)) = Some (Value e)"
       "expiry kv2 (KStr (Key e)) =
          Some (case (if 0 <s TTLms e then Some (TTLms e * Millisecond) else None) of
                  Some d \<Rightarrow> Some (Add (clock (length ls)) d) | None \<Rightarrow> None)"
    by blast
  from Set_flagged_wf [OF r(2,3) v, of J fs "clock (length ls)" "Value e"
      "if 0 <s TTLms e then Some (TTLms e * Millisecond) else None"] s(1)
  have w2: "wf (kv2\<lparr>Persistent := p\<rparr>)" by auto
  have "replay J clock 0 (ls @ [l]) kv fs = Inr (kv2, fs)"
    using r(1) s(1) assms(3,4) by (simp add: replay_append Let_def)
  moreover have "expiry kv2 (KStr (Key e)) =
      Some (if 0 <s TTLms e
            then Some (Add (clock (length ls)) (TTLms e * Millisecond)) else None)"
    using s(5) by simp
  ultimately show ?thesis using s(3,4) w2 by blast
qed

text \<open>A call on another key leaves the value and the expiry of a key as they are, or
  evicts the key.\<close>

lemma Set_other:
  assumes "wf kv" "\<not> Persistent kv" "Set J kv fs now k' v ttl = Inr (ok, kv', fs')" "k \<noteq> k'"
  shows "(stored kv' k = None \<and> expiry kv' k = None)
         \<or> (stored kv' k = stored kv k \<and> expiry kv' k = expiry kv k)"
proof (cases "entries (Cache kv) k")
  case None
  have "entries (Cache kv') k = None"
    using assms(2,3,4) None
    by (auto simp: Set_def Let_def persist_off evict_def map_index_def map_assign_def
        map_delete_def split: option.splits sum.splits if_splits)
  then show ?thesis by (simp add: stored_def expiry_def)
next
  case (Some r)
  from wf_lookup [OF assms(1) Some] obtain e where
    e: "r \<in> set (LRU_deque kv)" "elems kv r = Some e" "key e = k" by blast
  have lt: "r < next_ref kv" using assms(1) e(1) by (simp add: wf_def)
  have ne: "r \<noteq> r'" if "entries (Cache kv) k' = Some r'" for r'
    using wf_lookup [OF assms(1) that] e(2,3) assms(4) by auto
  have "entries (Cache kv') k = None
        \<or> (entries (Cache kv') k = Some r \<and> elems kv' r = elems kv r)"
    using assms(2,3,4) Some lt ne
    by (auto simp: Set_def Let_def persist_off evict_def map_index_def map_assign_def
        map_delete_def split: option.splits sum.splits if_splits)
  then show ?thesis using Some by (auto simp: stored_def expiry_def)
qed

lemma Delete_other:
  assumes "\<not> Persistent kv" "Delete J kv fs k' = Inr (ok, kv', fs')" "k \<noteq> k'"
  shows "stored kv' k = stored kv k \<and> expiry kv' k = expiry kv k"
  using assms
  by (auto simp: Delete_def Let_def persist_off map_index_def map_delete_def stored_def
      expiry_def split: option.splits sum.splits if_splits)

lemma replay_other:
  assumes "wf (kv\<lparr>Persistent := p\<rparr>)" "\<not> Persistent kv"
    and "\<forall>l\<in>set ls. map_option Key (Unmarshal J l) \<noteq> Some s"
    and "replay J clock i ls kv fs = Inr (kv', fs')"
  shows "(stored kv' (KStr s) = None \<and> expiry kv' (KStr s) = None)
         \<or> (stored kv' (KStr s) = stored kv (KStr s) \<and> expiry kv' (KStr s) = expiry kv (KStr s))"
  using assms
proof (induction ls arbitrary: i kv)
  case Nil
  then show ?case by simp
next
  case (Cons l ls)
  have rest: "\<forall>l\<in>set ls. map_option Key (Unmarshal J l) \<noteq> Some s"
    using Cons.prems(3) by simp
  have w: "wf kv" by (rule frame_wf [OF Cons.prems(1)]) (use Cons.prems(2) in simp_all)
  show ?case
  proof (cases "Unmarshal J l")
    case None
    then show ?thesis using Cons.IH [OF Cons.prems(1,2) rest] Cons.prems(4) by simp
  next
    case (Some e)
    have k: "KStr s \<noteq> KStr (Key e)" using Cons.prems(3) Some by auto
    consider (set) "Op e = ''SET''" | (del) "Op e \<noteq> ''SET''" "Op e = ''DELETE''"
      | (other) "Op e \<noteq> ''SET''" "Op e \<noteq> ''DELETE''" by blast
    then show ?thesis
    proof cases
      case set
      have "is_str (KStr (Key e))" by simp
      from Set_flagged_wf [OF Cons.prems(1,2) this] obtain ok kv1 where
        s: "Set J kv fs (clock i) (KStr (Key e)) (Value e)
              (if 0 <s TTLms e then Some (TTLms e * Millisecond) else None) = Inr (ok, kv1, fs)"
          "wf (kv1\<lparr>Persistent := p\<rparr>)" "\<not> Persistent kv1"
        by blast
      have r: "replay J clock (Suc i) ls kv1 fs = Inr (kv', fs')"
        using Cons.prems(4) Some set s(1) by (simp add: Let_def)
      show ?thesis
        using Cons.IH [OF s(2,3) rest r] Set_other [OF w Cons.prems(2) s(1) k] by auto
    next
      case del
      have "is_str (KStr (Key e))" by simp
      from Delete_flagged_wf [OF Cons.prems(1,2) this] obtain ok kv1 where
        s: "Delete J kv fs (KStr (Key e)) = Inr (ok, kv1, fs)"
          "wf (kv1\<lparr>Persistent := p\<rparr>)" "\<not> Persistent kv1"
        by blast
      have r: "replay J clock (Suc i) ls kv1 fs = Inr (kv', fs')"
        using Cons.prems(4) Some del s(1) by simp
      show ?thesis
        using Cons.IH [OF s(2,3) rest r] Delete_other [OF Cons.prems(2) s(1) k] by auto
    next
      case other
      then show ?thesis using Cons.IH [OF Cons.prems(1,2) rest] Cons.prems(4) Some by simp
    qed
  qed
qed

text \<open>
  C10. \<open>ReplayLog\<close> on a cache in a reachable state, over a file of which any line
  decodes to a SET record with \<open>ttl_ms = T\<close>. Once the lines up to and including
  this one are applied, the key holds the value of the record, with the expiry \<open>T\<close>
  milliseconds after the clock reading at which the record is applied when
  \<open>0 < T \<le> 9223372036854\<close> (the values for which \<open>T\<close> milliseconds fit a \<open>Duration\<close>), and
  without expiry when \<open>T \<le> 0\<close>. \<open>ReplayLog\<close> returns the state that the remaining
  lines make of this one; when none of them decodes to a record of the same key, the key is
  there with this value and this expiry, unless a later SET has evicted it. The record that
  \<open>Set\<close> makes for a TTL of less than a millisecond has \<open>ttl_ms = 0\<close>.
\<close>

theorem replay_rebuilds_ttl:
  assumes "run J cs (NewOpenCache c p path) fs0 = Inr (kv, fs00)"
    and "files fs filename = Some content" "ScanLines J content = (ls @ l # rest, err)"
    and "Unmarshal J l = Some e" "Op e = ''SET''"
    and "sint (TTLms e) \<le> 9223372036854"
    and "- 1000000 < sint d" "sint d < 1000000"
  shows "(\<exists>kv1 kv'.
            replay J clock 0 (ls @ [l]) (kv\<lparr>Persistent := False\<rparr>) fs = Inr (kv1, fs)
            \<and> stored kv1 (KStr (Key e)) = Some (Value e)
            \<and> expiry kv1 (KStr (Key e)) =
                Some (if 0 < sint (TTLms e)
                      then Some (clock (length ls) + 1000000 * sint (TTLms e)) else None)
            \<and> replay J clock (Suc (length ls)) rest kv1 fs = Inr (kv', fs)
            \<and> ReplayLog J kv fs clock filename = Inr (err, kv'\<lparr>Persistent := Persistent kv\<rparr>, fs)
            \<and> ((\<forall>l'\<in>set rest. map_option Key (Unmarshal J l') \<noteq> Some (Key e)) \<longrightarrow>
                 (stored (kv'\<lparr>Persistent := Persistent kv\<rparr>) (KStr (Key e)) = None
                  \<and> expiry (kv'\<lparr>Persistent := Persistent kv\<rparr>) (KStr (Key e)) = None)
                 \<or> (stored (kv'\<lparr>Persistent := Persistent kv\<rparr>) (KStr (Key e)) = Some (Value e)
                    \<and> expiry (kv'\<lparr>Persistent := Persistent kv\<rparr>) (KStr (Key e)) =
                        Some (if 0 < sint (TTLms e)
                              then Some (clock (length ls) + 1000000 * sint (TTLms e))
                              else None))))
         \<and> makeLogEntry ''SET'' (KStr s) v (Some d)
             = Inr \<lparr>Op = ''SET'', Key = s, Value = v, TTLms = 0\<rparr>"
proof
  let ?k0 = "kv\<lparr>Persistent := False\<rparr>"
  let ?E = "Some (if 0 < sint (TTLms e)
                  then Some (clock (length ls) + 1000000 * sint (TTLms e)) else None)"
  have w: "wf kv" using reachable_wf [OF assms(1)] .
  have "wf (?k0\<lparr>Persistent := Persistent kv\<rparr>)" using w by simp
  from replay_then_SET [OF this _ assms(4,5), of clock ls fs] obtain kv1 where
    r: "replay J clock 0 (ls @ [l]) ?k0 fs = Inr (kv1, fs)"
       "wf (kv1\<lparr>Persistent := Persistent kv\<rparr>)" "\<not> Persistent kv1"
       "stored kv1 (KStr (Key e)) = Some (Value e)"
       "expiry kv1 (KStr (Key e)) =
          Some (if 0 <s TTLms e
                then Some (Add (clock (length ls)) (TTLms e * Millisecond)) else None)"
    by auto
  have x: "(if 0 <s TTLms e
            then Some (Add (clock (length ls)) (TTLms e * Millisecond)) else None)
         = (if 0 < sint (TTLms e)
            then Some (clock (length ls) + 1000000 * sint (TTLms e)) else None)"
    using sint_Millisecond [OF _ assms(6)] by (simp add: word_sless_alt Add_def)
  have e1: "expiry kv1 (KStr (Key e)) = ?E" using r(5) x by simp
  from replay_wf [OF r(2,3), of J clock "Suc (length ls)" rest fs] obtain kv' where
    r': "replay J clock (Suc (length ls)) rest kv1 fs = Inr (kv', fs)" by blast
  have "ls @ l # rest = (ls @ [l]) @ rest" by simp
  then have "replay J clock 0 (ls @ l # rest) ?k0 fs = Inr (kv', fs)"
    using r(1) r' by (simp only: replay_append) simp
  then have R: "ReplayLog J kv fs clock filename
                  = Inr (err, kv'\<lparr>Persistent := Persistent kv\<rparr>, fs)"
    using assms(2,3) by (simp add: ReplayLog_def Let_def)
  have F: "(stored kv' (KStr (Key e)) = None \<and> expiry kv' (KStr (Key e)) = None)
           \<or> (stored kv' (KStr (Key e)) = Some (Value e) \<and> expiry kv' (KStr (Key e)) = ?E)"
    if "\<forall>l'\<in>set rest. map_option Key (Unmarshal J l') \<noteq> Some (Key e)"
    using replay_other [OF r(2,3) that r'] r(4) e1 by auto
  show "\<exists>kv1 kv'.
            replay J clock 0 (ls @ [l]) (kv\<lparr>Persistent := False\<rparr>) fs = Inr (kv1, fs)
            \<and> stored kv1 (KStr (Key e)) = Some (Value e)
            \<and> expiry kv1 (KStr (Key e)) = ?E
            \<and> replay J clock (Suc (length ls)) rest kv1 fs = Inr (kv', fs)
            \<and> ReplayLog J kv fs clock filename = Inr (err, kv'\<lparr>Persistent := Persistent kv\<rparr>, fs)
            \<and> ((\<forall>l'\<in>set rest. map_option Key (Unmarshal J l') \<noteq> Some (Key e)) \<longrightarrow>
                 (stored (kv'\<lparr>Persistent := Persistent kv\<rparr>) (KStr (Key e)) = None
                  \<and> expiry (kv'\<lparr>Persistent := Persistent kv\<rparr>) (KStr (Key e)) = None)
                 \<or> (stored (kv'\<lparr>Persistent := Persistent kv\<rparr>) (KStr (Key e)) = Some (Value e)
                    \<and> expiry (kv'\<lparr>Persistent := Persistent kv\<rparr>) (KStr (Key e)) = ?E))"
    using r(1,4) e1 r' R F
    by (intro exI [of _ kv1] exI [of _ kv']) (simp only: stored_flag expiry_flag, blast)
next
  show "makeLogEntry ''SET'' (KStr s) v (Some d)
          = Inr \<lparr>Op = ''SET'', Key = s, Value = v, TTLms = 0\<rparr>"
    using Milliseconds_under_one [OF assms(7,8)] by (simp add: makeLogEntry_def)
qed

theorem replay_rebuilds_ttl_witness:
  "\<exists>kv'.
     run demo_lib [] fresh fs_empty = Inr (fresh, fs_empty)
     \<and> Unmarshal demo_lib ''SET c 1500''
         = Some \<lparr>Op = ''SET'', Key = ''c'', Value = Some 3, TTLms = 1500\<rparr>
     \<and> Unmarshal demo_lib ''SET a''
         = Some \<lparr>Op = ''SET'', Key = ''a'', Value = Some 1, TTLms = 0\<rparr>
     \<and> ReplayLog demo_lib fresh (fs_with [''SET c 1500'', ''SET a'']) noon ''log.aof''
         = Inr (None, kv', fs_with [''SET c 1500'', ''SET a''])
     \<and> stored kv' (KStr ''c'') = Some (Some 3)
     \<and> expiry kv' (KStr ''c'') = Some (Some 1500001000)
     \<and> stored kv' (KStr ''a'') = Some (Some 1)
     \<and> expiry kv' (KStr ''a'') = Some None
     \<and> makeLogEntry ''SET'' (KStr ''a'') (Some (7::nat)) (Some 999999)
         = Inr \<lparr>Op = ''SET'', Key = ''a'', Value = Some 7, TTLms = 0\<rparr>"
proof -
  let ?fs = "fs_with [''SET c 1500'', ''SET a'']"
  have r: "run demo_lib [] (NewOpenCache 2 False ''log.aof'') fs_empty = Inr (fresh, fs_empty)"
    by (simp add: fresh_def)
  have f: "files ?fs ''log.aof'' = Some [''SET c 1500'', ''SET a'']"
    by (simp add: fs_with_def)
  have s1: "ScanLines demo_lib [''SET c 1500'', ''SET a''] = ([] @ ''SET c 1500'' # [''SET a''], None)"
    and s2: "ScanLines demo_lib [''SET c 1500'', ''SET a''] = ([''SET c 1500''] @ ''SET a'' # [], None)"
    by (simp_all add: demo_lib_def)
  have u1: "Unmarshal demo_lib ''SET c 1500''
              = Some \<lparr>Op = ''SET'', Key = ''c'', Value = Some 3, TTLms = 1500\<rparr>"
    and u2: "Unmarshal demo_lib ''SET a''
              = Some \<lparr>Op = ''SET'', Key = ''a'', Value = Some 1, TTLms = 0\<rparr>"
    by (simp_all add: demo_lib_def)
  have d: "- 1000000 < sint (999999 :: int64)" "sint (999999 :: int64) < 1000000"
    by simp_all
  obtain kvR where
    R: "ReplayLog demo_lib fresh ?fs noon ''log.aof'' = Inr (None, kvR, ?fs)"
    and c: "stored kvR (KStr ''c'') = Some (Some 3)"
      "expiry kvR (KStr ''c'') = Some (Some 1500001000)"
      "stored kvR (KStr ''a'') = Some (Some 1)" "expiry kvR (KStr ''a'') = Some None"
    by (simp add: demo_lib_def fresh_def NewOpenCache_def fs_with_def noon_def ReplayLog_def
        Let_def Set_def ValidateKey_def evict_def persist_def Add_def Millisecond_def
        stored_def expiry_def word_sless_alt map_index_def map_assign_def map_make_def)
  show ?thesis
    using replay_rebuilds_ttl [OF r f s1 u1 _ _ d, of noon "''a''" "Some 7"]
      replay_rebuilds_ttl [OF r f s2 u2 _ _ d, of noon "''a''" "Some 7"] r R c u1 u2
    by (auto simp: noon_def fresh_def)
qed

text \<open>
  A SET record with \<open>ttl_ms = 9223372036855\<close>: the product with \<open>Millisecond\<close> wraps
  around, and the replayed entry expires before the instant of the replay.
\<close>

theorem replay_rebuilds_ttl_counterexample:
  "Unmarshal demo_lib ''SET d 9223372036855''
     = Some \<lparr>Op = ''SET'', Key = ''d'', Value = Some 4, TTLms = 9223372036855\<rparr>
   \<and> \<not> isl (ReplayLog demo_lib fresh (fs_with [''SET d 9223372036855'']) noon ''log.aof'')
   \<and> expiry (fst (snd (projr
        (ReplayLog demo_lib fresh (fs_with [''SET d 9223372036855'']) noon ''log.aof''))))
        (KStr ''d'')
      = Some (Some (noon 0 - 9223372036854551616))
   \<and> noon 0 - 9223372036854551616 \<noteq> noon 0 + 1000000 * 9223372036855"
  by (simp add: demo_lib_def fresh_def NewOpenCache_def fs_with_def noon_def ReplayLog_def
      Let_def Set_def ValidateKey_def evict_def persist_def Add_def Millisecond_def
      expiry_def word_sless_alt map_index_def map_assign_def map_make_def)

section \<open>Replaying a cache's own log\<close>

lemma eff_path_New: "eff_path (NewOpenCache C p path) = default_path path"
  by (simp add: eff_path_def default_path_def NewOpenCache_def)

lemma content_upto_flag:
  "content_upto tr (a\<lparr>Persistent := p\<rparr>) b = content_upto tr a b"
  "content_upto tr a (b\<lparr>Persistent := q\<rparr>) = content_upto tr a b"
  "content_upto tr (a\<lparr>LogPath := l\<rparr>) b = content_upto tr a b"
  by (simp_all add: content_upto_def)

lemma Set_logged:
  assumes "Set J a fs now k v ttl = Inr (ok, a1, fs1)" "Persistent a"
    and "eff_path a \<notin> unwritable fs"
    and "\<forall>e. makeLogEntry ''SET'' k v ttl = Inr e \<longrightarrow> decodes_as J tr e"
  shows "\<exists>L. log_lines fs1 (eff_path a) = log_lines fs (eff_path a) @ L
           \<and> unwritable fs1 = unwritable fs \<and> Persistent a1 \<and> eff_path a1 = eff_path a
           \<and> (\<forall>b i fsb. content_upto tr a b \<and> \<not> Persistent b \<longrightarrow>
                  (\<exists>b1. replay J clock i L b fsb = Inr (b1, fsb)
                     \<and> content_upto tr a1 b1 \<and> \<not> Persistent b1))"
proof -
  let ?a = "a\<lparr>Persistent := False\<rparr>"
  obtain okN aN fsN where N: "Set J ?a fs now k v ttl = Inr (okN, aN, fsN)"
    using assms(1) by (subst (asm) Set_decompose) (auto split: sum.splits)
  have sim: "\<exists>b1. Set J b fsb nb k (tr v) tb = Inr (okN, b1, fsb) \<and> content_upto tr aN b1
               \<and> \<not> Persistent b1"
    if "content_upto tr a b" "\<not> Persistent b" for b fsb nb tb
  proof -
    have sc: "content_upto tr ?a b" using that(1) by (simp add: content_upto_flag)
    show ?thesis using sim_Set [OF sc _ that(2) N, of fsb nb tb] by auto
  qed
  have sc0: "content_upto (\<lambda>v. v) ?a ?a" by (simp add: content_upto_def)
  have aN: "LogPath aN = LogPath a" "\<not> Persistent aN"
    using sim_Set [OF sc0 _ _ N] by auto
  show ?thesis
  proof (cases okN)
    case False
    then have "a1 = a" "fs1 = fs" "\<not> ok"
      using assms(1) N by (subst (asm) Set_decompose; simp)+
    moreover have "aN = ?a"
      using N False
      by (auto simp: Set_def Let_def persist_off split: option.splits sum.splits)
    ultimately show ?thesis using assms(2) by (intro exI [of _ "[]"]) simp
  next
    case True
    let ?aP = "aN\<lparr>Persistent := True\<rparr>"
    have p: "persist J ?aP fs ''SET'' k v ttl = Inr (a1, fs1)"
      using assms(1,2) N True by (subst (asm) Set_decompose) (auto split: sum.splits)
    have ep: "eff_path ?aP = eff_path a" using aN by (simp add: eff_path_def)
    from persist_logged [OF p] assms(3) ep obtain e where
      e: "makeLogEntry ''SET'' k v ttl = Inr e" "is_str k"
         "a1 = ?aP\<lparr>LogPath := eff_path a\<rparr>"
         "fs1 = fs\<lparr>files := (files fs)(eff_path a \<mapsto>
                log_lines fs (eff_path a) @ [case Marshal J e of Some d \<Rightarrow> d | None \<Rightarrow> []])\<rparr>"
      by auto
    from e(1) assms(4) obtain d e' where
      d: "Marshal J e = Some d" "Unmarshal J d = Some e'"
         "Op e' = Op e" "Key e' = Key e" "Value e' = tr (Value e)"
      by (auto simp: decodes_as_def split: option.splits)
    have ek: "Op e = ''SET''" "KStr (Key e) = k" "Value e = v"
      using e(1) by (auto simp: makeLogEntry_def split: gokey.splits)
    have "\<exists>b1. replay J clock i [d] b fsb = Inr (b1, fsb) \<and> content_upto tr a1 b1
             \<and> \<not> Persistent b1"
      if b: "content_upto tr a b" "\<not> Persistent b" for b i fsb
    proof -
      obtain b1 where b1: "Set J b fsb (clock i) k (tr v)
          (if 0 <s TTLms e' then Some (TTLms e' * Millisecond) else None) = Inr (okN, b1, fsb)"
        "content_upto tr aN b1" "\<not> Persistent b1"
        using sim [OF b] by blast
      have "content_upto tr a1 b1" using b1(2) e(3) by (simp add: content_upto_flag)
      then show ?thesis using b1 d ek by (simp add: Let_def)
    qed
    moreover have "log_lines fs1 (eff_path a) = log_lines fs (eff_path a) @ [d]"
      using e(4) d by (simp add: log_lines_def)
    moreover have "unwritable fs1 = unwritable fs" using e(4) by simp
    moreover have "Persistent a1" "eff_path a1 = eff_path a"
      using e(3) by (simp_all add: eff_path_def)
    ultimately show ?thesis by blast
  qed
qed

lemma Delete_logged:
  assumes "Delete J a fs k = Inr (ok, a1, fs1)" "Persistent a"
    and "eff_path a \<notin> unwritable fs"
    and "\<forall>e. makeLogEntry ''DELETE'' k None None = Inr e \<longrightarrow> decodes_as J tr e"
  shows "\<exists>L. log_lines fs1 (eff_path a) = log_lines fs (eff_path a) @ L
           \<and> unwritable fs1 = unwritable fs \<and> Persistent a1 \<and> eff_path a1 = eff_path a
           \<and> (\<forall>b i fsb. content_upto tr a b \<and> \<not> Persistent b \<longrightarrow>
                  (\<exists>b1. replay J clock i L b fsb = Inr (b1, fsb)
                     \<and> content_upto tr a1 b1 \<and> \<not> Persistent b1))"
proof -
  let ?a = "a\<lparr>Persistent := False\<rparr>"
  obtain okN aN fsN where N: "Delete J ?a fs k = Inr (okN, aN, fsN)"
    using assms(1) by (subst (asm) Delete_decompose) (auto split: sum.splits)
  have sim: "\<exists>b1. Delete J b fsb k = Inr (okN, b1, fsb) \<and> content_upto tr aN b1
               \<and> \<not> Persistent b1"
    if "content_upto tr a b" "\<not> Persistent b" for b fsb
  proof -
    have sc: "content_upto tr ?a b" using that(1) by (simp add: content_upto_flag)
    show ?thesis using sim_Delete [OF sc _ that(2) N, of fsb] by auto
  qed
  have sc0: "content_upto (\<lambda>v. v) ?a ?a" by (simp add: content_upto_def)
  have aN: "LogPath aN = LogPath a" "\<not> Persistent aN"
    using sim_Delete [OF sc0 _ _ N] by auto
  show ?thesis
  proof (cases okN)
    case False
    then have "a1 = a" "fs1 = fs" "\<not> ok"
      using assms(1) N by (subst (asm) Delete_decompose; simp)+
    moreover have "aN = ?a"
      using N False
      by (auto simp: Delete_def Let_def persist_off split: option.splits sum.splits)
    ultimately show ?thesis using assms(2) by (intro exI [of _ "[]"]) simp
  next
    case True
    let ?aP = "aN\<lparr>Persistent := True\<rparr>"
    have p: "persist J ?aP fs ''DELETE'' k None None = Inr (a1, fs1)"
      using assms(1,2) N True by (subst (asm) Delete_decompose) (auto split: sum.splits)
    have ep: "eff_path ?aP = eff_path a" using aN by (simp add: eff_path_def)
    from persist_logged [OF p] assms(3) ep obtain e where
      e: "makeLogEntry ''DELETE'' k None None = Inr e" "is_str k"
         "a1 = ?aP\<lparr>LogPath := eff_path a\<rparr>"
         "fs1 = fs\<lparr>files := (files fs)(eff_path a \<mapsto>
                log_lines fs (eff_path a) @ [case Marshal J e of Some d \<Rightarrow> d | None \<Rightarrow> []])\<rparr>"
      by auto
    from e(1) assms(4) obtain d e' where
      d: "Marshal J e = Some d" "Unmarshal J d = Some e'"
         "Op e' = Op e" "Key e' = Key e"
      by (auto simp: decodes_as_def split: option.splits)
    have ek: "Op e = ''DELETE''" "KStr (Key e) = k"
      using e(1) by (auto simp: makeLogEntry_def split: gokey.splits)
    have "\<exists>b1. replay J clock i [d] b fsb = Inr (b1, fsb) \<and> content_upto tr a1 b1
             \<and> \<not> Persistent b1"
      if b: "content_upto tr a b" "\<not> Persistent b" for b i fsb
    proof -
      obtain b1 where b1: "Delete J b fsb k = Inr (okN, b1, fsb)"
        "content_upto tr aN b1" "\<not> Persistent b1"
        using sim [OF b] by blast
      have "content_upto tr a1 b1" using b1(2) e(3) by (simp add: content_upto_flag)
      then show ?thesis using b1 d ek by simp
    qed
    moreover have "log_lines fs1 (eff_path a) = log_lines fs (eff_path a) @ [d]"
      using e(4) d by (simp add: log_lines_def)
    moreover have "unwritable fs1 = unwritable fs" using e(4) by simp
    moreover have "Persistent a1" "eff_path a1 = eff_path a"
      using e(3) by (simp_all add: eff_path_def)
    ultimately show ?thesis by blast
  qed
qed

lemma step_logged:
  assumes "step J c a fs = Inr (a1, fs1)" "Persistent a"
    and "eff_path a \<notin> unwritable fs"
    and "is_mutation c" "\<forall>e. record_of c = Inr e \<longrightarrow> decodes_as J tr e"
  shows "\<exists>L. log_lines fs1 (eff_path a) = log_lines fs (eff_path a) @ L
           \<and> unwritable fs1 = unwritable fs \<and> Persistent a1 \<and> eff_path a1 = eff_path a
           \<and> (\<forall>b i fsb. content_upto tr a b \<and> \<not> Persistent b \<longrightarrow>
                  (\<exists>b1. replay J clock i L b fsb = Inr (b1, fsb)
                     \<and> content_upto tr a1 b1 \<and> \<not> Persistent b1))"
proof (cases c)
  case (CSet k v ttl now)
  then obtain ok where "Set J a fs now k v ttl = Inr (ok, a1, fs1)"
    using assms(1) by (auto split: sum.splits)
  from Set_logged [OF this assms(2,3)] assms(5) CSet show ?thesis by simp
next
  case (CDelete k)
  then obtain ok where "Delete J a fs k = Inr (ok, a1, fs1)"
    using assms(1) by (auto split: sum.splits)
  from Delete_logged [OF this assms(2,3)] assms(5) CDelete show ?thesis by simp
qed (use assms(4) in simp_all)

lemma run_logged:
  assumes "run J cs a fs = Inr (a', fs')" "Persistent a"
    and "eff_path a \<notin> unwritable fs"
    and "\<forall>c\<in>set cs. is_mutation c \<and> (\<forall>e. record_of c = Inr e \<longrightarrow> decodes_as J tr e)"
  shows "\<exists>L. log_lines fs' (eff_path a) = log_lines fs (eff_path a) @ L
           \<and> (\<forall>b i fsb. content_upto tr a b \<and> \<not> Persistent b \<longrightarrow>
                  (\<exists>b'. replay J clock i L b fsb = Inr (b', fsb)
                     \<and> content_upto tr a' b' \<and> \<not> Persistent b'))"
  using assms
proof (induction cs arbitrary: a fs)
  case Nil
  then show ?case by (intro exI [of _ "[]"]) auto
next
  case (Cons c cs)
  from Cons.prems(1) obtain a1 fs1 where
    s: "step J c a fs = Inr (a1, fs1)" "run J cs a1 fs1 = Inr (a', fs')"
    by (auto split: sum.splits)
  have c: "is_mutation c" "\<forall>e. record_of c = Inr e \<longrightarrow> decodes_as J tr e"
    using Cons.prems(4) by simp_all
  from step_logged [OF s(1) Cons.prems(2,3) c, of clock] obtain L1 where
    L1: "log_lines fs1 (eff_path a) = log_lines fs (eff_path a) @ L1"
        "unwritable fs1 = unwritable fs" "Persistent a1" "eff_path a1 = eff_path a"
        "\<And>b i fsb. content_upto tr a b \<Longrightarrow> \<not> Persistent b \<Longrightarrow>
            \<exists>b1. replay J clock i L1 b fsb = Inr (b1, fsb)
               \<and> content_upto tr a1 b1 \<and> \<not> Persistent b1"
    by blast
  have "eff_path a1 \<notin> unwritable fs1" using L1(2,4) Cons.prems(3) by simp
  from Cons.IH [OF s(2) L1(3) this] Cons.prems(4) obtain L2 where
    L2: "log_lines fs' (eff_path a1) = log_lines fs1 (eff_path a1) @ L2"
        "\<And>b i fsb. content_upto tr a1 b \<Longrightarrow> \<not> Persistent b \<Longrightarrow>
            \<exists>b'. replay J clock i L2 b fsb = Inr (b', fsb)
               \<and> content_upto tr a' b' \<and> \<not> Persistent b'"
    by auto
  have "\<exists>b'. replay J clock i (L1 @ L2) b fsb = Inr (b', fsb)
           \<and> content_upto tr a' b' \<and> \<not> Persistent b'"
    if b: "content_upto tr a b" "\<not> Persistent b" for b i fsb
  proof -
    from L1(5) [OF b, of i fsb] obtain b1 where
      b1: "replay J clock i L1 b fsb = Inr (b1, fsb)" "content_upto tr a1 b1" "\<not> Persistent b1"
      by blast
    from L2(2) [OF b1(2,3), of "i + length L1" fsb] obtain b' where
      "replay J clock (i + length L1) L2 b1 fsb = Inr (b', fsb)"
      "content_upto tr a' b'" "\<not> Persistent b'"
      by blast
    then show ?thesis using b1(1) by (simp add: replay_append)
  qed
  moreover have "log_lines fs' (eff_path a) = log_lines fs (eff_path a) @ (L1 @ L2)"
    using L1(1,4) L2(1) by simp
  ultimately show ?case by blast
qed

lemma content_upto_stored:
  assumes "content_upto tr a b"
  shows "stored b k = map_option tr (stored a k)"
proof -
  have c: "Cache a = Cache b" using assms by (simp add: content_upto_def)
  show ?thesis
  proof (cases "entries (Cache b) k")
    case None
    then show ?thesis using c by (simp add: stored_def)
  next
    case (Some r)
    have "map_option (\<lambda>e. (key e, tr (val e))) (elems a r)
            = map_option (\<lambda>e. (key e, val e)) (elems b r)"
      using assms by (simp add: content_upto_def)
    then have "map_option val (elems b r) = map_option tr (map_option val (elems a r))"
      by (cases "elems a r"; cases "elems b r") auto
    then show ?thesis using c Some by (simp add: stored_def)
  qed
qed

lemma content_upto_keys:
  assumes "content_upto tr a b"
  shows "deque_keys b = deque_keys a"
proof -
  have "map_option key (elems b r) = map_option key (elems a r)" for r
  proof -
    have "map_option (\<lambda>e. (key e, tr (val e))) (elems a r)
            = map_option (\<lambda>e. (key e, val e)) (elems b r)"
      using assms by (simp add: content_upto_def)
    then show ?thesis by (cases "elems a r"; cases "elems b r") auto
  qed
  moreover have "LRU_deque b = LRU_deque a" using assms by (simp add: content_upto_def)
  ultimately show ?thesis by (simp add: deque_keys_def)
qed

lemma length_long_key [simp]: "length long_key = 70000"
  by (simp add: long_key_def)

lemma long_key_neq [simp]:
  "length s \<noteq> 70000 \<Longrightarrow> long_key \<noteq> s"
  "length s \<noteq> 70000 \<Longrightarrow> s \<noteq> long_key"
  by auto

text \<open>
  C1. Let the calls be \<open>Set\<close> and \<open>Delete\<close> calls that have all returned on a fresh
  persistent cache of capacity \<open>C\<close>, with a log that was empty or absent before the
  first call and could be opened for appending, a library that decodes the line it writes
  for each record of the calls to a record with the same operation, the same key and the
  value \<open>tr v\<close> for the value \<open>v\<close>, and a scanner that yields every line of the log.
  Then \<open>ReplayLog\<close> on that log, into a fresh cache of the same capacity, returns and
  leaves the same keys, in the same order, each with the value \<open>tr v\<close> for the value
  \<open>v\<close> that the first cache holds.
\<close>

theorem replay_reproduces_content:
  fixes J :: "'v lib"
  assumes "run J cs (NewOpenCache C True path) fs0 = Inr (A, fs1)"
    and "\<forall>c\<in>set cs. is_mutation c \<and> (\<forall>e. record_of c = Inr e \<longrightarrow> decodes_as J tr e)"
    and "log_lines fs0 (default_path path) = []"
    and "default_path path \<notin> unwritable fs0"
    and "ScanLines J (log_lines fs1 (default_path path))
           = (log_lines fs1 (default_path path), None)"
  shows "\<exists>err B.
           ReplayLog J (NewOpenCache C pB pathB) fs1 clock (default_path path)
             = Inr (err, B, fs1)
           \<and> err = (case files fs1 (default_path path) of
                      None \<Rightarrow> Some OpenError | Some content \<Rightarrow> None)
           \<and> dom (entries (Cache B)) = dom (entries (Cache A))
           \<and> (\<forall>k. stored B k = map_option tr (stored A k))
           \<and> deque_keys B = deque_keys A
           \<and> content_upto tr A B"
proof -
  let ?A0 = "NewOpenCache C True path :: 'v OpenCache"
  let ?B0 = "NewOpenCache C pB pathB :: 'v OpenCache"
  let ?P = "default_path path"
  have P: "eff_path ?A0 = ?P" by (rule eff_path_New)
  let ?b0 = "?B0\<lparr>Persistent := False\<rparr>"
  have pA: "Persistent ?A0" by (simp add: NewOpenCache_def)
  have sc0: "content_upto tr ?A0 ?b0" "\<not> Persistent ?b0"
    by (simp_all add: content_upto_def NewOpenCache_def)
  have "eff_path ?A0 \<notin> unwritable fs0" using assms(4) P by simp
  from run_logged [OF assms(1) pA this assms(2), of clock] assms(3) P obtain L where
    L: "log_lines fs1 ?P = L"
       "\<And>b i fsb. content_upto tr ?A0 b \<Longrightarrow> \<not> Persistent b \<Longrightarrow>
            \<exists>b'. replay J clock i L b fsb = Inr (b', fsb)
               \<and> content_upto tr A b' \<and> \<not> Persistent b'"
    by auto
  from L(2) [OF sc0, of 0 fs1] obtain b' where
    b': "replay J clock 0 L ?b0 fs1 = Inr (b', fs1)" "content_upto tr A b'"
    by blast
  have "\<exists>err B. ReplayLog J ?B0 fs1 clock ?P = Inr (err, B, fs1) \<and> content_upto tr A B
          \<and> err = (case files fs1 ?P of None \<Rightarrow> Some OpenError | Some content \<Rightarrow> None)"
  proof (cases "files fs1 ?P")
    case None
    then have "L = []" using L(1) by (simp add: log_lines_def)
    then have "b' = ?b0" using b'(1) by simp
    then have "content_upto tr A ?B0" using b'(2) by (simp add: content_upto_flag)
    then show ?thesis using None by (simp add: ReplayLog_def)
  next
    case (Some content)
    then have "content = L" using L(1) by (simp add: log_lines_def)
    then have "ScanLines J content = (L, None)" using assms(5) L(1) by simp
    then have "ReplayLog J ?B0 fs1 clock ?P = Inr (None, b'\<lparr>Persistent := pB\<rparr>, fs1)"
      using Some b'(1) by (simp add: ReplayLog_def Let_def NewOpenCache_def)
    moreover have "content_upto tr A (b'\<lparr>Persistent := pB\<rparr>)"
      using b'(2) by (simp add: content_upto_flag)
    ultimately show ?thesis using Some by simp
  qed
  then obtain err B where
    B: "ReplayLog J ?B0 fs1 clock ?P = Inr (err, B, fs1)" "content_upto tr A B"
      "err = (case files fs1 ?P of None \<Rightarrow> Some OpenError | Some content \<Rightarrow> None)"
    by blast
  have "dom (entries (Cache B)) = dom (entries (Cache A))"
    using B(2) by (simp add: content_upto_def)
  moreover have "\<forall>k. stored B k = map_option tr (stored A k)"
    using content_upto_stored [OF B(2)] by simp
  moreover have "deque_keys B = deque_keys A" using content_upto_keys [OF B(2)] .
  ultimately show ?thesis using B by blast
qed

theorem replay_reproduces_content_witness:
  "\<exists>A fs1 B.
     run json_demo
       [CSet (KStr ''a'') (Some (VInt 1)) None 100,
        CSet (KStr ''b'') (Some (VStr ''x'')) (Some 5000) 200,
        CDelete (KStr ''a''),
        CSet (KStr ''a'') (Some (VInt 1)) None 300]
       (NewOpenCache 2 True ''log.aof'') fs_empty = Inr (A, fs1)
     \<and> files fs1 ''log.aof'' = Some [''SET a'', ''SET b'', ''DELETE a'', ''SET a'']
     \<and> ReplayLog json_demo (NewOpenCache 2 False ''log.aof'') fs1 noon ''log.aof''
         = Inr (None, B, fs1)
     \<and> dom (entries (Cache A)) = {KStr ''a'', KStr ''b''}
     \<and> dom (entries (Cache B)) = {KStr ''a'', KStr ''b''}
     \<and> stored A (KStr ''a'') = Some (Some (VInt 1))
     \<and> stored B (KStr ''a'') = Some (Some (VFloat64 1))
     \<and> stored A (KStr ''b'') = Some (Some (VStr ''x''))
     \<and> stored B (KStr ''b'') = Some (Some (VStr ''x''))
     \<and> expiry A (KStr ''b'') = Some (Some 5200)
     \<and> deque_keys A = [Some (KStr ''a''), Some (KStr ''b'')]
     \<and> deque_keys B = [Some (KStr ''a''), Some (KStr ''b'')]"
proof -
  let ?cs = "[CSet (KStr ''a'') (Some (VInt 1)) None 100,
        CSet (KStr ''b'') (Some (VStr ''x'')) (Some 5000) 200,
        CDelete (KStr ''a''),
        CSet (KStr ''a'') (Some (VInt 1)) None 300]"
  have m: "Milliseconds 5000 = 0"
    by (simp add: Milliseconds_def signed_divide_int_def)
  obtain A :: "goval OpenCache" and fs1 where
    r: "run json_demo ?cs (NewOpenCache 2 True ''log.aof'') fs_empty = Inr (A, fs1)"
    and f: "files fs1 ''log.aof'' = Some [''SET a'', ''SET b'', ''DELETE a'', ''SET a'']"
    and a: "dom (entries (Cache A)) = {KStr ''a'', KStr ''b''}"
      "stored A (KStr ''a'') = Some (Some (VInt 1))"
      "stored A (KStr ''b'') = Some (Some (VStr ''x''))"
      "expiry A (KStr ''b'') = Some (Some 5200)"
      "deque_keys A = [Some (KStr ''a''), Some (KStr ''b'')]"
    by (simp add: NewOpenCache_def Set_def Delete_def ValidateKey_def
        evict_def Let_def persist_def makeLogEntry_def AppendToLog_def Add_def Remove_def
        fs_empty_def json_demo_def m stored_def expiry_def deque_keys_def
        map_index_def map_assign_def map_delete_def map_make_def insert_commute)
  have h: "\<forall>c\<in>set ?cs. is_mutation c
             \<and> (\<forall>e. record_of c = Inr e \<longrightarrow> decodes_as json_demo json_image e)"
    by (auto simp: makeLogEntry_def decodes_as_def json_demo_def json_image_def m)
  have p: "default_path ''log.aof'' = ''log.aof''" by (simp add: default_path_def)
  have e: "log_lines fs_empty (default_path ''log.aof'') = []"
    "default_path ''log.aof'' \<notin> unwritable fs_empty"
    by (simp_all add: log_lines_def fs_empty_def)
  have s: "ScanLines json_demo (log_lines fs1 (default_path ''log.aof''))
             = (log_lines fs1 (default_path ''log.aof''), None)"
    using f by (simp add: json_demo_def scan64k_def log_lines_def p)
  from replay_reproduces_content [OF r h e s, of False "''log.aof''" noon] p f
  obtain B where
    B: "ReplayLog json_demo (NewOpenCache 2 False ''log.aof'') fs1 noon ''log.aof''
       = Inr (None, B, fs1)"
    "dom (entries (Cache B)) = dom (entries (Cache A))"
    "\<forall>k. stored B k = map_option json_image (stored A k)"
    "deque_keys B = deque_keys A"
    by auto
  have "stored B (KStr ''a'') = Some (Some (VFloat64 1))"
    "stored B (KStr ''b'') = Some (Some (VStr ''x''))"
    using B(3) a by (simp_all add: json_image_def)
  then show ?thesis
    using r f a B by (intro exI [of _ A] exI [of _ fs1] exI [of _ B]) simp
qed

text \<open>
  Six runs after which the replayed cache differs from the first one. In each of them the
  calls return.
  \<^enum> The log cannot be opened for appending: nothing is written, and the key is missing
    after the replay.
  \<^enum> The value is the \<^verbatim>\<open>int\<close> 1: it is read back as the \<^verbatim>\<open>float64\<close> 1.
  \<^enum> The value is a channel: \<open>Marshal\<close> fails, its error is dropped, an empty line is
    written, and the replay skips it.
  \<^enum> The key is the byte \<^verbatim>\<open>0xFF\<close>: it is written as U+FFFD, and the replay sets that
    key instead.
  \<^enum> The key has 70000 bytes: the scanner stops at its line with an error, and the
    record after it is not replayed either.
  \<^enum> The log held a record before the first call: the replay sets its key too.
\<close>

theorem replay_reproduces_content_counterexample:
  "(\<exists>A B.
      run json_demo [CSet (KStr ''b'') (Some (VStr ''x'')) None 100]
        (NewOpenCache 2 True ''log.aof'') fs_readonly = Inr (A, fs_readonly)
      \<and> ReplayLog json_demo (NewOpenCache 2 False ''log.aof'') fs_readonly noon ''log.aof''
          = Inr (None, B, fs_readonly)
      \<and> stored A (KStr ''b'') = Some (Some (VStr ''x'')) \<and> stored B (KStr ''b'') = None)
   \<and> (\<exists>A B.
      run json_demo [CSet (KStr ''a'') (Some (VInt 1)) None 100]
        (NewOpenCache 2 True ''log.aof'') fs_empty = Inr (A, fs_with [''SET a''])
      \<and> ReplayLog json_demo (NewOpenCache 2 False ''log.aof'') (fs_with [''SET a'']) noon
          ''log.aof'' = Inr (None, B, fs_with [''SET a''])
      \<and> stored A (KStr ''a'') = Some (Some (VInt 1))
      \<and> stored B (KStr ''a'') = Some (Some (VFloat64 1)))
   \<and> (\<exists>A B.
      run json_demo [CSet (KStr ''b'') (Some VChan) None 100]
        (NewOpenCache 2 True ''log.aof'') fs_empty = Inr (A, fs_with [[]])
      \<and> ReplayLog json_demo (NewOpenCache 2 False ''log.aof'') (fs_with [[]]) noon
          ''log.aof'' = Inr (None, B, fs_with [[]])
      \<and> stored A (KStr ''b'') = Some (Some VChan) \<and> stored B (KStr ''b'') = None)
   \<and> (\<exists>A B.
      run json_demo [CSet (KStr [CHR 0xFF]) (Some (VStr ''x'')) None 100]
        (NewOpenCache 2 True ''log.aof'') fs_empty
          = Inr (A, fs_with [''SET '' @ [CHR 0xEF, CHR 0xBF, CHR 0xBD]])
      \<and> ReplayLog json_demo (NewOpenCache 2 False ''log.aof'')
          (fs_with [''SET '' @ [CHR 0xEF, CHR 0xBF, CHR 0xBD]]) noon ''log.aof''
          = Inr (None, B, fs_with [''SET '' @ [CHR 0xEF, CHR 0xBF, CHR 0xBD]])
      \<and> stored A (KStr [CHR 0xFF]) = Some (Some (VStr ''x''))
      \<and> stored B (KStr [CHR 0xFF]) = None)
   \<and> (\<exists>A B.
      run json_demo [CSet (KStr long_key) (Some (VStr ''x'')) None 100,
                     CSet (KStr ''b'') (Some (VStr ''x'')) None 200]
        (NewOpenCache 2 True ''log.aof'') fs_empty
          = Inr (A, fs_with [''SET '' @ long_key, ''SET b''])
      \<and> ReplayLog json_demo (NewOpenCache 2 False ''log.aof'')
          (fs_with [''SET '' @ long_key, ''SET b'']) noon ''log.aof''
          = Inr (Some ScanError, B, fs_with [''SET '' @ long_key, ''SET b''])
      \<and> stored A (KStr long_key) = Some (Some (VStr ''x''))
      \<and> stored A (KStr ''b'') = Some (Some (VStr ''x''))
      \<and> stored B (KStr long_key) = None \<and> stored B (KStr ''b'') = None)
   \<and> (\<exists>A B.
      run json_demo [CSet (KStr ''a'') (Some (VInt 1)) None 100]
        (NewOpenCache 2 True ''log.aof'') (fs_with [''SET b''])
          = Inr (A, fs_with [''SET b'', ''SET a''])
      \<and> ReplayLog json_demo (NewOpenCache 2 False ''log.aof'') (fs_with [''SET b'', ''SET a''])
          noon ''log.aof'' = Inr (None, B, fs_with [''SET b'', ''SET a''])
      \<and> stored A (KStr ''b'') = None
      \<and> stored B (KStr ''b'') = Some (Some (VStr ''x'')))"
  by (simp add: NewOpenCache_def Set_def ValidateKey_def evict_def Let_def persist_def
      makeLogEntry_def AppendToLog_def fs_readonly_def fs_empty_def fs_with_def noon_def
      json_demo_def scan64k_def stored_def ReplayLog_def
      map_index_def map_assign_def map_make_def)

end
